theory Spec2Isabelle
  imports Complex_Main "HOL-Library.Word" "HOL-Library.AList"
begin

section \<open>Data model\<close>

text \<open>
  JavaScript strings are sequences of UTF-16 code units. Colour ids are JavaScript
  numbers holding integers; they are modelled as \<open>int\<close>.
\<close>

type_synonym jsstring = "16 word list"

text \<open>
  \<open>IGlyphIdentifier\<close> is imported from \<open>./Types\<close>; its fields are the ones the atlas
  reads: \<open>glyph.char\<close>, \<open>glyph.bg\<close>, \<open>glyph.fg\<close>, \<open>glyph.bold\<close>, \<open>glyph.dim\<close>.
\<close>

record IGlyphIdentifier =
  char :: jsstring
  bg :: int
  fg :: int
  bold :: bool
  dim :: bool

text \<open>
  Modelled from the spec: the colour type of the configuration is declared outside the
  atlas. The atlas reads \<open>.css\<close>; the channel word \<open>rgba\<close> stands for the "renderable
  color representation" that the background-stripping step compares pixels with.
\<close>

record IColor =
  css :: string
  rgba :: "32 word"

record IColorSet =
  foreground :: IColor
  background :: IColor
  ansi :: "IColor list"

text \<open>
  The fields of \<open>ICharAtlasConfig\<close> that the atlas reads. The cell dimensions are
  positive integers; \<open>fontSize\<close> and \<open>devicePixelRatio\<close> are floating-point numbers whose
  product is never computed in this model (see \<open>css_font\<close>).
\<close>

record ICharAtlasConfig =
  scaledCharWidth :: nat
  scaledCharHeight :: nat
  fontSize :: real
  devicePixelRatio :: real
  fontFamily :: string
  colors :: IColorSet

record pixel =
  red :: "8 word"
  green :: "8 word"
  blue :: "8 word"
  alpha :: "8 word"

text \<open>
  Pixel buffers and canvases are indexed by (column, row). A canvas keeps its size; the
  pixels outside it are never written.
\<close>

record ImageData =
  img_width :: nat
  img_height :: nat
  img_data :: "nat \<times> nat \<Rightarrow> pixel"

record canvas =
  canvas_width :: nat
  canvas_height :: nat
  canvas_data :: "nat \<times> nat \<Rightarrow> pixel"

text \<open>
  The value of the \<open>font\<close> property, kept symbolic: \<open>Px s r f\<close> is the text
  \<open>`${s * r}px ${f}`\<close> and \<open>Bold t\<close> is \<open>`bold ${t}`\<close>.
\<close>

datatype css_font = Px real real string | Bold css_font

text \<open>The calls made on the scratch context, in the order they are made.\<close>

datatype canvas_call =
    Save
  | Restore
  | FillStyle string
  | FillRect int int nat nat
  | Font css_font
  | TextBaseline string
  | GlobalAlpha real
  | FillText jsstring int int
  | GetImageData int int nat nat

text \<open>
  A \<open>drawImage\<close> call on the destination context: the pixels of the source rectangle
  at the moment of the call, and the destination rectangle.
\<close>

datatype dest_call = DrawImage ImageData int int nat nat

datatype error = TypeError

text \<open>
  What the atlas imports and what the browser decides: the two constants of \<open>./Types\<close>,
  and the pixels that \<open>getImageData\<close> reads from the scratch canvas after a given history
  of calls.
\<close>

record env =
  INVERTED_DEFAULT_COLOR :: int
  DIM_OPACITY :: real
  scratch_pixels :: "canvas_call list \<Rightarrow> nat \<times> nat \<Rightarrow> pixel"

text \<open>The fields of the class. \<open>tmpCtx\<close> is the history of calls on the scratch context.\<close>

record DynamicCharAtlas =
  config :: ICharAtlasConfig
  cacheMap :: "(jsstring \<times> nat) list"
  cacheCanvas :: canvas
  tmpCtx :: "canvas_call list"
  capacity :: nat
  width :: nat
  height :: nat

section \<open>The glyph key\<close>

definition digitChar :: "nat \<Rightarrow> 16 word" where
  "digitChar d = of_nat (48 + d)"

fun digits :: "nat \<Rightarrow> jsstring" where
  "digits n = (if n < 10 then [digitChar n] else digits (n div 10) @ [digitChar (n mod 10)])"

declare digits.simps [simp del]

text \<open>The text of an integer number in a template string: decimal, \<open>-\<close> in front if negative.\<close>

definition numberToString :: "int \<Rightarrow> jsstring" where
  "numberToString i = (if i < 0 then 0x2D # digits (nat (- i)) else digits (nat i))"

definition getGlyphCacheKey :: "IGlyphIdentifier \<Rightarrow> jsstring" where
  "getGlyphCacheKey glyph =
     numberToString (bg glyph) @ [0x5F] @ numberToString (fg glyph) @ [0x5F]
       @ [if bold glyph then 0x30 else 0x31] @ [if dim glyph then 0x30 else 0x31]
       @ char glyph"

definition digit_val :: "16 word \<Rightarrow> nat" where
  "digit_val c = unat c - 48"

section \<open>The ordered map\<close>

text \<open>
  A JavaScript \<open>Map\<close> iterates in insertion order: an association list with distinct
  keys, oldest entry first. \<open>get\<close> is \<open>map_of\<close>, \<open>delete\<close> is \<open>AList.delete\<close>, \<open>set\<close> is
  \<open>AList.update\<close> (a new key goes to the end, a present key keeps its place), \<open>size\<close> is
  \<open>length\<close>.
\<close>

definition mapShift :: "('k \<times> 'v) list \<Rightarrow> ('k \<times> 'v) option \<times> ('k \<times> 'v) list" where
  "mapShift m = (case m of [] \<Rightarrow> (None, m) | entry # _ \<Rightarrow> (Some entry, AList.delete (fst entry) m))"

section \<open>Construction and slot geometry\<close>

definition TEXTURE_WIDTH :: nat where
  "TEXTURE_WIDTH = 1024"

definition TEXTURE_HEIGHT :: nat where
  "TEXTURE_HEIGHT = 1024"

definition transparent :: pixel where
  "transparent = \<lparr>red = 0, green = 0, blue = 0, alpha = 0\<rparr>"

text \<open>
  The constructor, with the two texture constants as arguments; for positive cell
  dimensions \<open>Math.floor(a / b)\<close> is \<open>a div b\<close>.
\<close>

definition constructor_with :: "nat \<Rightarrow> nat \<Rightarrow> ICharAtlasConfig \<Rightarrow> DynamicCharAtlas" where
  "constructor_with textureWidth textureHeight cfg =
     \<lparr>config = cfg,
      cacheMap = [],
      cacheCanvas = \<lparr>canvas_width = textureWidth, canvas_height = textureHeight,
                     canvas_data = (\<lambda>_. transparent)\<rparr>,
      tmpCtx = [],
      capacity = (textureWidth div scaledCharWidth cfg) * (textureHeight div scaledCharHeight cfg),
      width = textureWidth div scaledCharWidth cfg,
      height = textureHeight div scaledCharHeight cfg\<rparr>"

text \<open>The constructor as the source has it, with the constants of the module.\<close>

definition constructor :: "ICharAtlasConfig \<Rightarrow> DynamicCharAtlas" where
  "constructor cfg = constructor_with TEXTURE_WIDTH TEXTURE_HEIGHT cfg"

definition toCoordinates :: "DynamicCharAtlas \<Rightarrow> nat \<Rightarrow> nat \<times> nat" where
  "toCoordinates s index =
     ((index mod width s) * scaledCharWidth (config s),
      (index div width s) * scaledCharHeight (config s))"

text \<open>The cell rectangle at a position: the pixels it covers.\<close>

definition cell :: "DynamicCharAtlas \<Rightarrow> nat \<times> nat \<Rightarrow> (nat \<times> nat) set" where
  "cell s p = {(i, j). fst p \<le> i \<and> i < fst p + scaledCharWidth (config s)
                     \<and> snd p \<le> j \<and> j < snd p + scaledCharHeight (config s)}"

section \<open>Cacheability\<close>

definition canCache :: "IGlyphIdentifier \<Rightarrow> bool" where
  "canCache glyph = (case char glyph of [] \<Rightarrow> False | c # _ \<Rightarrow> c < 256)"

text \<open>
  The first code point of a string, as \<open>codePointAt(0)\<close> computes it: a surrogate pair
  is one code point above \<open>0xFFFF\<close>. This follows the spec's wording ("character code
  point"); the source reads the first code unit.
\<close>

definition codePointAt0 :: "jsstring \<Rightarrow> nat option" where
  "codePointAt0 cs =
     (case cs of
        [] \<Rightarrow> None
      | [c] \<Rightarrow> Some (unat c)
      | c # d # _ \<Rightarrow>
          if 0xD800 \<le> c \<and> c \<le> 0xDBFF \<and> 0xDC00 \<le> d \<and> d \<le> 0xDFFF
          then Some ((unat c - 0xD800) * 0x400 + (unat d - 0xDC00) + 0x10000)
          else Some (unat c))"

section \<open>Rasterizing into the atlas\<close>

definition ansiAt :: "IColor list \<Rightarrow> int \<Rightarrow> IColor option" where
  "ansiAt xs i = (if 0 \<le> i \<and> i < int (length xs) then Some (xs ! nat i) else None)"

text \<open>
  Modelled from the spec: \<open>clearColor\<close> is imported from \<open>CharAtlasGenerator\<close>. It turns
  every pixel that exactly matches the colour fully transparent (alpha 0) and leaves all
  other pixels as they are. A pixel matches a colour when its red, green and blue bytes
  are the three colour bytes of \<open>rgba\<close>.
\<close>

definition colorMatches :: "pixel \<Rightarrow> IColor \<Rightarrow> bool" where
  "colorMatches p c \<longleftrightarrow>
     red p = ucast (drop_bit 24 (rgba c)) \<and> green p = ucast (drop_bit 16 (rgba c))
       \<and> blue p = ucast (drop_bit 8 (rgba c))"

definition clearColor :: "ImageData \<Rightarrow> IColor \<Rightarrow> ImageData" where
  "clearColor imageData color =
     imageData\<lparr>img_data := (\<lambda>p. if colorMatches (img_data imageData p) color
                                then (img_data imageData p)\<lparr>alpha := 0\<rparr>
                                else img_data imageData p)\<rparr>"

text \<open>\<open>putImageData\<close> overwrites the rectangle of the image, clipped to the canvas.\<close>

definition putImageData :: "canvas \<Rightarrow> ImageData \<Rightarrow> nat \<Rightarrow> nat \<Rightarrow> canvas" where
  "putImageData c imageData x y =
     c\<lparr>canvas_data := (\<lambda>(i, j).
          if x \<le> i \<and> i < x + img_width imageData \<and> y \<le> j \<and> j < y + img_height imageData
             \<and> i < canvas_width c \<and> j < canvas_height c
          then img_data imageData (i - x, j - y)
          else canvas_data c (i, j))\<rparr>"

definition drawToCache ::
  "env \<Rightarrow> DynamicCharAtlas \<Rightarrow> IGlyphIdentifier \<Rightarrow> nat \<Rightarrow> error + DynamicCharAtlas" where
  "drawToCache E s glyph index =
     (let cfg = config s;
          w = scaledCharWidth cfg;
          h = scaledCharHeight cfg;
          backgroundColor =
            (if bg glyph = INVERTED_DEFAULT_COLOR E then Some (foreground (colors cfg))
             else if bg glyph < 256 then ansiAt (ansi (colors cfg)) (bg glyph)
             else Some (background (colors cfg)))
      in case backgroundColor of
           None \<Rightarrow> Inl TypeError
         | Some bgc \<Rightarrow>
             (let font0 = Px (fontSize cfg) (devicePixelRatio cfg) (fontFamily cfg);
                  calls1 = [Save, FillStyle (css bgc), FillRect 0 0 w h, Font font0]
                             @ (if bold glyph then [Font (Bold font0)] else [])
                             @ [TextBaseline ''top''];
                  fgStyle =
                    (if fg glyph = INVERTED_DEFAULT_COLOR E then Some (css (background (colors cfg)))
                     else if fg glyph < 256 then map_option css (ansiAt (ansi (colors cfg)) (fg glyph))
                     else Some (css (foreground (colors cfg))))
              in case fgStyle of
                   None \<Rightarrow> Inl TypeError
                 | Some style \<Rightarrow>
                     (let calls2 = [FillStyle style]
                                     @ (if dim glyph then [GlobalAlpha (DIM_OPACITY E)] else [])
                                     @ [FillText (char glyph) 0 0, Restore];
                          ctx1 = tmpCtx s @ calls1 @ calls2;
                          imageData = \<lparr>img_width = w, img_height = h,
                                       img_data = scratch_pixels E ctx1\<rparr>;
                          cleared = clearColor imageData bgc;
                          xy = toCoordinates s index
                      in Inr (s\<lparr>tmpCtx := ctx1 @ [GetImageData 0 0 w h],
                                cacheCanvas := putImageData (cacheCanvas s) cleared (fst xy) (snd xy)\<rparr>))))"

section \<open>Drawing\<close>

definition sourceRect :: "canvas \<Rightarrow> nat \<Rightarrow> nat \<Rightarrow> nat \<Rightarrow> nat \<Rightarrow> ImageData" where
  "sourceRect c x y w h =
     \<lparr>img_width = w, img_height = h,
      img_data = (\<lambda>(i, j). if i < w \<and> j < h then canvas_data c (x + i, y + j) else transparent)\<rparr>"

definition drawFromCache :: "DynamicCharAtlas \<Rightarrow> nat \<Rightarrow> int \<Rightarrow> int \<Rightarrow> dest_call" where
  "drawFromCache s index x y =
     (let cacheXY = toCoordinates s index;
          w = scaledCharWidth (config s);
          h = scaledCharHeight (config s)
      in DrawImage (sourceRect (cacheCanvas s) (fst cacheXY) (snd cacheXY) w h) x y w h)"

text \<open>
  \<open>draw\<close> returns the boolean, the calls made on the destination context and the new
  state, or the exception that it throws.
\<close>

definition draw ::
  "env \<Rightarrow> DynamicCharAtlas \<Rightarrow> IGlyphIdentifier \<Rightarrow> int \<Rightarrow> int
     \<Rightarrow> error + (bool \<times> dest_call list \<times> DynamicCharAtlas)" where
  "draw E s glyph x y =
     (let glyphKey = getGlyphCacheKey glyph in
      case map_of (cacheMap s) glyphKey of
        Some index \<Rightarrow>
          (let s1 = s\<lparr>cacheMap := AList.delete glyphKey (cacheMap s)\<rparr>;
               s2 = s1\<lparr>cacheMap := AList.update glyphKey index (cacheMap s1)\<rparr>
           in Inr (True, [drawFromCache s2 index x y], s2))
      | None \<Rightarrow>
          if canCache glyph then
            (case (if length (cacheMap s) < capacity s
                   then Inr (length (cacheMap s), cacheMap s)
                   else (case mapShift (cacheMap s) of
                           (None, m) \<Rightarrow> Inl TypeError
                         | (Some entry, m) \<Rightarrow> Inr (snd entry, m))) of
               Inl e \<Rightarrow> Inl e
             | Inr (index, m) \<Rightarrow>
                 (case drawToCache E (s\<lparr>cacheMap := m\<rparr>) glyph index of
                    Inl e \<Rightarrow> Inl e
                  | Inr s1 \<Rightarrow>
                      (let s2 = s1\<lparr>cacheMap := AList.update glyphKey index (cacheMap s1)\<rparr>
                       in Inr (True, [drawFromCache s2 index x y], s2))))
          else Inr (False, [], s))"

text \<open>A sequence of \<open>draw\<close> calls; an exception ends it.\<close>

fun draws ::
  "env \<Rightarrow> DynamicCharAtlas \<Rightarrow> (IGlyphIdentifier \<times> int \<times> int) list \<Rightarrow> error + DynamicCharAtlas" where
  "draws E s [] = Inr s"
| "draws E s (c # cs) =
     (case draw E s (fst c) (fst (snd c)) (snd (snd c)) of
        Inl e \<Rightarrow> Inl e
      | Inr r \<Rightarrow> draws E (snd (snd r)) cs)"

section \<open>Notions used in the statements\<close>

text \<open>
  A colour id resolves when the rasterizer finds a colour for it: the sentinel, an id
  from 256 on, or an index into the palette.
\<close>

definition colorResolves :: "env \<Rightarrow> ICharAtlasConfig \<Rightarrow> int \<Rightarrow> bool" where
  "colorResolves E cfg c \<longleftrightarrow>
     c = INVERTED_DEFAULT_COLOR E \<or> 256 \<le> c \<or> (0 \<le> c \<and> c < int (length (ansi (colors cfg))))"

definition renderable :: "env \<Rightarrow> ICharAtlasConfig \<Rightarrow> IGlyphIdentifier \<Rightarrow> bool" where
  "renderable E cfg g \<longleftrightarrow> colorResolves E cfg (bg g) \<and> colorResolves E cfg (fg g)"

text \<open>The keys that a sequence of calls looks up or admits: those of its cacheable glyphs.\<close>

definition accesses :: "(IGlyphIdentifier \<times> int \<times> int) list \<Rightarrow> jsstring list" where
  "accesses cs = map getGlyphCacheKey (filter canCache (map fst cs))"


text \<open>How many accesses were made after the last access to \<open>k\<close>.\<close>

definition idle :: "'a list \<Rightarrow> 'a \<Rightarrow> nat" where
  "idle ks k = length (takeWhile (\<lambda>k'. k' \<noteq> k) (rev ks))"

text \<open>The last \<open>n\<close> elements of a list.\<close>

definition lastn :: "nat \<Rightarrow> 'a list \<Rightarrow> 'a list" where
  "lastn n xs = drop (length xs - n) xs"

text \<open>
  The shape of the map in a reachable state: distinct keys, distinct slots, the slots in
  use are the first \<open>size\<close> ones, and the size is at most the capacity.
\<close>

definition wellFormed :: "DynamicCharAtlas \<Rightarrow> bool" where
  "wellFormed s \<longleftrightarrow>
     distinct (map fst (cacheMap s)) \<and> distinct (map snd (cacheMap s))
       \<and> set (map snd (cacheMap s)) = {0..<length (cacheMap s)}
       \<and> length (cacheMap s) \<le> capacity s"

section \<open>The rasterizer as the spec describes it\<close>

text \<open>
  These definitions follow the words of the spec (4.4 and 4.5), to be compared with
  \<open>drawToCache\<close>. The effective background: the sentinel selects the theme foreground, an id
  below 256 the palette entry, any other id the theme background.
\<close>

definition spec_effectiveBackground :: "env \<Rightarrow> IColorSet \<Rightarrow> int \<Rightarrow> IColor" where
  "spec_effectiveBackground E cs c =
     (if c = INVERTED_DEFAULT_COLOR E then foreground cs
      else if c < 256 then ansi cs ! nat c
      else background cs)"

text \<open>The effective foreground: the same rule with the two theme colours exchanged.\<close>

definition spec_effectiveForeground :: "env \<Rightarrow> IColorSet \<Rightarrow> int \<Rightarrow> IColor" where
  "spec_effectiveForeground E cs c =
     (if c = INVERTED_DEFAULT_COLOR E then background cs
      else if c < 256 then ansi cs ! nat c
      else foreground cs)"

text \<open>
  Steps 2 and 3: fill the cell with the background, then select the font (the bold
  variant if \<open>bold\<close> is set), put the baseline at the top, select the foreground, apply the
  dim factor if \<open>dim\<close> is set, and draw the character at the origin of the cell.
\<close>

definition spec_pipeline :: "env \<Rightarrow> ICharAtlasConfig \<Rightarrow> IGlyphIdentifier \<Rightarrow> canvas_call list" where
  "spec_pipeline E cfg g =
     [Save,
      FillStyle (css (spec_effectiveBackground E (colors cfg) (bg g))),
      FillRect 0 0 (scaledCharWidth cfg) (scaledCharHeight cfg),
      Font (Px (fontSize cfg) (devicePixelRatio cfg) (fontFamily cfg))]
     @ (if bold g then [Font (Bold (Px (fontSize cfg) (devicePixelRatio cfg) (fontFamily cfg)))] else [])
     @ [TextBaseline ''top'',
        FillStyle (css (spec_effectiveForeground E (colors cfg) (fg g)))]
     @ (if dim g then [GlobalAlpha (DIM_OPACITY E)] else [])
     @ [FillText (char g) 0 0, Restore]"

text \<open>
  Step 4: every pixel that exactly matches the fill colour becomes fully transparent,
  every other pixel stays as it is.
\<close>

definition spec_stripBackground :: "(nat \<times> nat \<Rightarrow> pixel) \<Rightarrow> IColor \<Rightarrow> nat \<times> nat \<Rightarrow> pixel" where
  "spec_stripBackground buffer color p =
     (if colorMatches (buffer p) color then (buffer p)\<lparr>alpha := 0\<rparr> else buffer p)"

text \<open>
  \<open>writeToAtlas\<close>: the buffer replaces the pixels of the cell at the slot's coordinates (as
  far as the cell lies on the canvas), with no blending; all other pixels stay.
\<close>

definition spec_writeToAtlas ::
  "canvas \<Rightarrow> nat \<times> nat \<Rightarrow> nat \<Rightarrow> nat \<Rightarrow> (nat \<times> nat \<Rightarrow> pixel) \<Rightarrow> nat \<times> nat \<Rightarrow> pixel" where
  "spec_writeToAtlas c xy w h buffer p =
     (if fst xy \<le> fst p \<and> fst p < fst xy + w \<and> snd xy \<le> snd p \<and> snd p < snd xy + h
         \<and> fst p < canvas_width c \<and> snd p < canvas_height c
      then buffer (fst p - fst xy, snd p - snd xy)
      else canvas_data c p)"

section \<open>Concrete inputs\<close>

definition exampleColors :: IColorSet where
  "exampleColors =
     \<lparr>foreground = \<lparr>css = ''#ffffff'', rgba = 0xFFFFFFFF\<rparr>,
      background = \<lparr>css = ''#000000'', rgba = 0x000000FF\<rparr>,
      ansi = replicate 256 \<lparr>css = ''#808080'', rgba = 0x808080FF\<rparr>\<rparr>"

definition exampleConfig :: "nat \<Rightarrow> nat \<Rightarrow> ICharAtlasConfig" where
  "exampleConfig w h =
     \<lparr>scaledCharWidth = w, scaledCharHeight = h, fontSize = 12, devicePixelRatio = 2,
      fontFamily = ''monospace'', colors = exampleColors\<rparr>"

text \<open>An environment whose scratch canvas always reads as the theme background.\<close>

definition exampleEnv :: env where
  "exampleEnv =
     \<lparr>INVERTED_DEFAULT_COLOR = - 1, DIM_OPACITY = 1 / 2,
      scratch_pixels = (\<lambda>_ _. \<lparr>red = 0, green = 0, blue = 0, alpha = 255\<rparr>)\<rparr>"

definition exampleGlyph :: "16 word \<Rightarrow> IGlyphIdentifier" where
  "exampleGlyph c = \<lparr>char = [c], bg = 256, fg = 257, bold = False, dim = False\<rparr>"

definition styledGlyph :: IGlyphIdentifier where
  "styledGlyph = \<lparr>char = [0x41], bg = 256, fg = 1, bold = True, dim = True\<rparr>"

section \<open>The key is injective\<close>

lemma unat_digitChar: "d < 10 \<Longrightarrow> unat (digitChar d) = 48 + d"
  unfolding digitChar_def by (simp only: unat_of_nat) simp

lemma digits_value: "foldl (\<lambda>a c. 10 * a + digit_val c) 0 (digits n) = n"
proof (induction n rule: digits.induct)
  case (1 n)
  show ?case
  proof (cases "n < 10")
    case True
    then show ?thesis by (subst digits.simps) (simp add: digit_val_def unat_digitChar)
  next
    case False
    then show ?thesis using 1 by (subst digits.simps) (simp add: digit_val_def unat_digitChar)
  qed
qed

lemma digits_inj: "digits n = digits m \<Longrightarrow> n = m"
  by (metis digits_value)

lemma digits_range: "c \<in> set (digits n) \<Longrightarrow> 48 \<le> unat c \<and> unat c \<le> 57"
proof (induction n rule: digits.induct)
  case (1 n)
  show ?case
  proof (cases "n < 10")
    case True
    then show ?thesis using 1(2) by (subst (asm) digits.simps) (auto simp: unat_digitChar)
  next
    case False
    have "n mod 10 < 10" by simp
    then have "unat (digitChar (n mod 10)) = 48 + n mod 10" by (rule unat_digitChar)
    then show ?thesis using False 1 by (subst (asm) (2) digits.simps) auto
  qed
qed

lemma digits_nonempty: "digits n \<noteq> []"
  by (subst digits.simps) simp

lemma underscore_not_digit: "(0x5F :: 16 word) \<notin> set (digits n)"
proof
  assume "(0x5F :: 16 word) \<in> set (digits n)"
  then have "unat (0x5F :: 16 word) \<le> 57" using digits_range by blast
  then show False by simp
qed

lemma minus_not_digit: "(0x2D :: 16 word) \<notin> set (digits n)"
proof
  assume "(0x2D :: 16 word) \<in> set (digits n)"
  then have "48 \<le> unat (0x2D :: 16 word)" using digits_range by blast
  then show False by simp
qed

lemma numberToString_no_underscore: "(0x5F :: 16 word) \<notin> set (numberToString i)"
  by (simp add: numberToString_def underscore_not_digit)

lemma numberToString_inj: "numberToString i = numberToString j \<Longrightarrow> i = j"
proof -
  assume eq: "numberToString i = numberToString j"
  have neg_pos: "\<And>n m. 0x2D # digits n \<noteq> digits m"
  proof
    fix n m assume "0x2D # digits n = digits m"
    then have "(0x2D :: 16 word) \<in> set (digits m)" by (metis list.set_intros(1))
    then show False using minus_not_digit by blast
  qed
  show ?thesis
  proof (cases "i < 0")
    case True
    show ?thesis
    proof (cases "j < 0")
      case True
      with \<open>i < 0\<close> eq have "nat (- i) = nat (- j)"
        by (auto simp: numberToString_def dest: digits_inj)
      with True \<open>i < 0\<close> show ?thesis by simp
    next
      case False
      with True eq neg_pos show ?thesis by (simp add: numberToString_def)
    qed
  next
    case False
    show ?thesis
    proof (cases "j < 0")
      case True
      with False eq neg_pos [of "nat (- j)" "nat i"] show ?thesis by (simp add: numberToString_def)
    next
      case False
      with \<open>\<not> i < 0\<close> eq have "nat i = nat j"
        by (auto simp: numberToString_def dest: digits_inj)
      with False \<open>\<not> i < 0\<close> show ?thesis by simp
    qed
  qed
qed

lemma split_at_separator:
  "u \<notin> set a \<Longrightarrow> u \<notin> set b \<Longrightarrow> a @ u # r = b @ u # t \<Longrightarrow> a = b \<and> r = t"
proof (induction a arbitrary: b)
  case Nil
  then show ?case by (cases b) auto
next
  case (Cons x a)
  then show ?case by (cases b) auto
qed

lemma getGlyphCacheKey_parts:
  assumes "getGlyphCacheKey g = getGlyphCacheKey g'"
  shows "bg g = bg g'" and "fg g = fg g'" and "bold g = bold g'" and "dim g = dim g'"
    and "char g = char g'"
proof -
  let ?r = "\<lambda>g. numberToString (fg g) @ 0x5F # (if bold g then 0x30 else 0x31)
                   # (if dim g then 0x30 else 0x31) # char g"
  let ?t = "\<lambda>g. (if bold g then (0x30 :: 16 word) else 0x31)
                   # (if dim g then 0x30 else 0x31) # char g"
  from assms have "numberToString (bg g) @ 0x5F # ?r g = numberToString (bg g') @ 0x5F # ?r g'"
    by (simp add: getGlyphCacheKey_def)
  then have 1: "numberToString (bg g) = numberToString (bg g')" and 2: "?r g = ?r g'"
    using split_at_separator [OF numberToString_no_underscore numberToString_no_underscore]
    by blast+
  from 1 show "bg g = bg g'" by (rule numberToString_inj)
  from 2 have 3: "numberToString (fg g) = numberToString (fg g')" and 4: "?t g = ?t g'"
    using split_at_separator [OF numberToString_no_underscore numberToString_no_underscore]
    by blast+
  from 3 show "fg g = fg g'" by (rule numberToString_inj)
  from 4 show "bold g = bold g'" by (simp split: if_splits)
  from 4 show "dim g = dim g'" by (simp split: if_splits)
  from 4 show "char g = char g'" by simp
qed

text \<open>
  C6: the key is an injective encoding of the glyph identity. Two glyph identities have
  the same key if and only if they agree on \<open>bg\<close>, \<open>fg\<close>, \<open>bold\<close>, \<open>dim\<close> and \<open>char\<close>: the two
  colour ids end at their separators, the two flag characters follow at fixed positions,
  and the character payload is the rest of the key.
\<close>

theorem getGlyphCacheKey_injective:
  "getGlyphCacheKey g = getGlyphCacheKey g' \<longleftrightarrow>
     bg g = bg g' \<and> fg g = fg g' \<and> bold g = bold g' \<and> dim g = dim g' \<and> char g = char g'"
proof
  assume "getGlyphCacheKey g = getGlyphCacheKey g'"
  then show "bg g = bg g' \<and> fg g = fg g' \<and> bold g = bold g' \<and> dim g = dim g' \<and> char g = char g'"
    by (intro conjI getGlyphCacheKey_parts)
next
  assume "bg g = bg g' \<and> fg g = fg g' \<and> bold g = bold g' \<and> dim g = dim g' \<and> char g = char g'"
  then show "getGlyphCacheKey g = getGlyphCacheKey g'"
    by (simp add: getGlyphCacheKey_def)
qed

section \<open>The keys of the example glyphs\<close>

lemma exampleGlyph_key:
  "getGlyphCacheKey (exampleGlyph c) = [0x32, 0x35, 0x36, 0x5F, 0x32, 0x35, 0x37, 0x5F, 0x31, 0x31, c]"
  by (simp add: getGlyphCacheKey_def exampleGlyph_def numberToString_def digits.simps digitChar_def)

lemma exampleGlyph_key_eq:
  "getGlyphCacheKey (exampleGlyph c) = getGlyphCacheKey (exampleGlyph d) \<longleftrightarrow> c = d"
  by (simp add: exampleGlyph_key)

lemma exampleGlyph_canCache: "canCache (exampleGlyph c) \<longleftrightarrow> c < 256"
  by (simp add: canCache_def exampleGlyph_def)

lemma exampleGlyph_renderable: "renderable exampleEnv cfg (exampleGlyph c)"
  by (simp add: renderable_def colorResolves_def exampleGlyph_def)

lemma example_fresh:
  "cacheMap (constructor_with w h cfg) = []" and "config (constructor_with w h cfg) = cfg"
  and "capacity (constructor_with w h (exampleConfig 1 1)) = w * h"
  by (simp_all add: constructor_with_def exampleConfig_def)

section \<open>Slot geometry\<close>

lemma stripes_apart:
  fixes a b c :: nat
  assumes "a \<noteq> b"
  shows "a * c + c \<le> b * c \<or> b * c + c \<le> a * c"
proof (cases "a < b")
  case True
  then have "Suc a * c \<le> b * c" by (intro mult_le_mono1) simp
  then show ?thesis by simp
next
  case False
  with assms have "Suc b * c \<le> a * c" by (intro mult_le_mono1) simp
  then show ?thesis by simp
qed

lemma stripe_inside:
  fixes a n c t :: nat
  assumes "a < t div c"
  shows "a * c + c \<le> t"
proof -
  from assms have "Suc a * c \<le> (t div c) * c" by (intro mult_le_mono1) simp
  also have "\<dots> \<le> t" by simp
  finally show ?thesis by simp
qed

lemma slot_row_col:
  fixes i W H :: nat
  assumes "i < W * H"
  shows "i mod W < W" and "i div W < H"
proof -
  from assms have "0 < W" by (cases W) auto
  then show "i mod W < W" by simp
  from assms show "i div W < H" by (simp add: less_mult_imp_div_less mult.commute)
qed

lemma slot_row_col_differ:
  fixes i j W :: nat
  assumes "i \<noteq> j"
  shows "i mod W \<noteq> j mod W \<or> i div W \<noteq> j div W"
  by (metis assms div_mult_mod_eq)

lemma cells_apart:
  assumes "i \<noteq> j"
  shows "cell s (toCoordinates s i) \<inter> cell s (toCoordinates s j) = {}"
proof -
  from assms consider "i mod width s \<noteq> j mod width s" | "i div width s \<noteq> j div width s"
    using slot_row_col_differ by blast
  then show ?thesis
  proof cases
    case 1
    from stripes_apart [OF 1, of "scaledCharWidth (config s)"] show ?thesis
      by (auto simp: cell_def toCoordinates_def)
  next
    case 2
    from stripes_apart [OF 2, of "scaledCharHeight (config s)"] show ?thesis
      by (auto simp: cell_def toCoordinates_def)
  qed
qed

text \<open>
  C7: with \<open>gridWidth = floor(textureWidth / cellWidth)\<close>, \<open>gridHeight =
  floor(textureHeight / cellHeight)\<close> and \<open>capacity = gridWidth * gridHeight\<close>, as the
  constructor computes them for positive cell dimensions, \<open>toCoordinates\<close> is injective on
  the slots below the capacity, the cell rectangle of every such slot lies inside the
  texture, and the cell rectangles of two distinct slots are disjoint.
\<close>

theorem slot_geometry:
  assumes cw: "0 < scaledCharWidth cfg" and ch: "0 < scaledCharHeight cfg"
    and s: "s = constructor_with textureWidth textureHeight cfg"
  shows "width s = textureWidth div scaledCharWidth cfg
       \<and> height s = textureHeight div scaledCharHeight cfg
       \<and> capacity s = width s * height s
       \<and> inj_on (toCoordinates s) {0..<capacity s}
       \<and> (\<forall>i<capacity s. cell s (toCoordinates s i) \<subseteq> {0..<textureWidth} \<times> {0..<textureHeight})
       \<and> (\<forall>i<capacity s. \<forall>j<capacity s. i \<noteq> j \<longrightarrow>
             cell s (toCoordinates s i) \<inter> cell s (toCoordinates s j) = {})"
proof -
  let ?cw = "scaledCharWidth cfg" and ?ch = "scaledCharHeight cfg"
  let ?W = "textureWidth div ?cw" and ?H = "textureHeight div ?ch"
  have w: "width s = ?W" and h: "height s = ?H" and c: "capacity s = ?W * ?H"
    and cfg: "config s = cfg"
    by (simp_all add: s constructor_with_def)
  have coords: "\<And>i. toCoordinates s i = ((i mod ?W) * ?cw, (i div ?W) * ?ch)"
    by (simp add: toCoordinates_def w cfg)
  have inside: "cell s (toCoordinates s i) \<subseteq> {0..<textureWidth} \<times> {0..<textureHeight}"
    if "i < capacity s" for i
  proof -
    from that have "i mod ?W < ?W" and "i div ?W < ?H"
      using slot_row_col [of i ?W ?H] by (simp_all add: c)
    then have "(i mod ?W) * ?cw + ?cw \<le> textureWidth" and "(i div ?W) * ?ch + ?ch \<le> textureHeight"
      by (simp_all add: stripe_inside)
    then show ?thesis by (auto simp: cell_def coords cfg)
  qed
  have nonempty: "cell s p \<noteq> {}" for p
  proof -
    have "p \<in> cell s p" using cw ch by (cases p) (simp add: cell_def cfg)
    then show ?thesis by blast
  qed
  have inj: "inj_on (toCoordinates s) {0..<capacity s}"
  proof (rule inj_onI)
    fix i j assume "toCoordinates s i = toCoordinates s j"
    then show "i = j" using cells_apart [of i j s] nonempty [of "toCoordinates s i"] by auto
  qed
  from w h c inj inside cells_apart show ?thesis by simp
qed

theorem slot_geometry_witness:
  "0 < scaledCharWidth (exampleConfig 2 2) \<and> 0 < scaledCharHeight (exampleConfig 2 2)
   \<and> capacity (constructor_with 4 4 (exampleConfig 2 2)) = 4
   \<and> toCoordinates (constructor_with 4 4 (exampleConfig 2 2)) 3 = (2, 2)
   \<and> inj_on (toCoordinates (constructor_with 4 4 (exampleConfig 2 2))) {0..<4}
   \<and> cell (constructor_with 4 4 (exampleConfig 2 2))
            (toCoordinates (constructor_with 4 4 (exampleConfig 2 2)) 3)
          \<subseteq> {0..<4} \<times> {0..<4}
   \<and> cell (constructor_with 4 4 (exampleConfig 2 2))
            (toCoordinates (constructor_with 4 4 (exampleConfig 2 2)) 1)
       \<inter> cell (constructor_with 4 4 (exampleConfig 2 2))
            (toCoordinates (constructor_with 4 4 (exampleConfig 2 2)) 3) = {}"
proof -
  have h1: "0 < scaledCharWidth (exampleConfig 2 2)" and h2: "0 < scaledCharHeight (exampleConfig 2 2)"
    by (simp_all add: exampleConfig_def)
  have c: "capacity (constructor_with 4 4 (exampleConfig 2 2)) = 4"
    by (simp add: exampleConfig_def constructor_with_def)
  have xy: "toCoordinates (constructor_with 4 4 (exampleConfig 2 2)) 3 = (2, 2)"
    by (simp add: exampleConfig_def constructor_with_def toCoordinates_def)
  from slot_geometry [OF h1 h2 refl, of 4 4] c
  have "inj_on (toCoordinates (constructor_with 4 4 (exampleConfig 2 2))) {0..<4}"
    and "\<forall>i<4. cell (constructor_with 4 4 (exampleConfig 2 2))
                (toCoordinates (constructor_with 4 4 (exampleConfig 2 2)) i)
              \<subseteq> {0..<4} \<times> {0..<4}"
    and "\<forall>i<4. \<forall>j<4. i \<noteq> j \<longrightarrow>
          cell (constructor_with 4 4 (exampleConfig 2 2))
               (toCoordinates (constructor_with 4 4 (exampleConfig 2 2)) i)
          \<inter> cell (constructor_with 4 4 (exampleConfig 2 2))
               (toCoordinates (constructor_with 4 4 (exampleConfig 2 2)) j) = {}"
    by simp_all
  then have "inj_on (toCoordinates (constructor_with 4 4 (exampleConfig 2 2))) {0..<4}"
    and "cell (constructor_with 4 4 (exampleConfig 2 2))
            (toCoordinates (constructor_with 4 4 (exampleConfig 2 2)) 3)
          \<subseteq> {0..<4} \<times> {0..<4}"
    and "cell (constructor_with 4 4 (exampleConfig 2 2))
            (toCoordinates (constructor_with 4 4 (exampleConfig 2 2)) 1)
       \<inter> cell (constructor_with 4 4 (exampleConfig 2 2))
            (toCoordinates (constructor_with 4 4 (exampleConfig 2 2)) 3) = {}"
    by (simp, simp, simp)
  with h1 h2 c xy show ?thesis by (intro conjI)
qed

section \<open>The cases of a draw call\<close>

lemma update_absent: "map_of m k = None \<Longrightarrow> AList.update k v m = m @ [(k, v)]"
  by (induction m) (auto split: if_splits)

lemma delete_as_filter: "AList.delete k m = filter (\<lambda>p. fst p \<noteq> k) m"
  by (induction m) auto

lemma delete_head: "distinct (map fst (e # m)) \<Longrightarrow> AList.delete (fst e) (e # m) = m"
  by (simp add: rev_image_eqI)

lemma mapShift_Nil: "mapShift [] = (None, [])"
  by (simp add: mapShift_def)

lemma mapShift_Cons: "distinct (map fst (e # m)) \<Longrightarrow> mapShift (e # m) = (Some e, m)"
  unfolding mapShift_def using delete_head [of e m] by simp

lemma drawToCache_frame:
  assumes "drawToCache E s g i = Inr s'"
  shows "cacheMap s' = cacheMap s" and "config s' = config s" and "capacity s' = capacity s"
    and "width s' = width s" and "height s' = height s"
    and "canvas_width (cacheCanvas s') = canvas_width (cacheCanvas s)"
    and "canvas_height (cacheCanvas s') = canvas_height (cacheCanvas s)"
  using assms
  by (auto simp: drawToCache_def Let_def putImageData_def split: option.splits if_splits)

lemma drawToCache_total:
  assumes "renderable E (config s) g"
  shows "\<exists>s'. drawToCache E s g i = Inr s'"
  using assms
  by (auto simp: drawToCache_def Let_def renderable_def colorResolves_def ansiAt_def
      split: option.splits)

lemma drawToCache_ignores_map:
  "drawToCache E (s\<lparr>cacheMap := m\<rparr>) g i = map_sum id (\<lambda>t. t\<lparr>cacheMap := m\<rparr>) (drawToCache E s g i)"
  by (auto simp: drawToCache_def Let_def toCoordinates_def split: option.splits)

lemma draw_hit:
  assumes "map_of (cacheMap s) (getGlyphCacheKey g) = Some i"
  shows "draw E s g x y =
           Inr (True,
                [drawFromCache (s\<lparr>cacheMap := filter (\<lambda>p. fst p \<noteq> getGlyphCacheKey g) (cacheMap s)
                                              @ [(getGlyphCacheKey g, i)]\<rparr>) i x y],
                s\<lparr>cacheMap := filter (\<lambda>p. fst p \<noteq> getGlyphCacheKey g) (cacheMap s)
                                 @ [(getGlyphCacheKey g, i)]\<rparr>)"
proof -
  have "map_of (AList.delete (getGlyphCacheKey g) (cacheMap s)) (getGlyphCacheKey g) = None"
    by (simp add: delete_conv')
  then have "AList.update (getGlyphCacheKey g) i (AList.delete (getGlyphCacheKey g) (cacheMap s))
           = filter (\<lambda>p. fst p \<noteq> getGlyphCacheKey g) (cacheMap s) @ [(getGlyphCacheKey g, i)]"
    by (simp add: update_absent delete_as_filter)
  with assms show ?thesis by (simp add: draw_def Let_def)
qed

lemma draw_reject:
  assumes "map_of (cacheMap s) (getGlyphCacheKey g) = None" and "\<not> canCache g"
  shows "draw E s g x y = Inr (False, [], s)"
  using assms by (simp add: draw_def)

lemma draw_admit:
  assumes "map_of (cacheMap s) (getGlyphCacheKey g) = None" and "canCache g"
    and "length (cacheMap s) < capacity s"
    and "drawToCache E s g (length (cacheMap s)) = Inr s1"
  shows "draw E s g x y =
           Inr (True,
                [drawFromCache (s1\<lparr>cacheMap := cacheMap s @ [(getGlyphCacheKey g, length (cacheMap s))]\<rparr>)
                   (length (cacheMap s)) x y],
                s1\<lparr>cacheMap := cacheMap s @ [(getGlyphCacheKey g, length (cacheMap s))]\<rparr>)"
proof -
  from assms(4) have "cacheMap s1 = cacheMap s" by (rule drawToCache_frame)
  with assms show ?thesis by (simp add: draw_def Let_def update_absent)
qed

lemma draw_evict:
  assumes "map_of (cacheMap s) (getGlyphCacheKey g) = None" and "canCache g"
    and "\<not> length (cacheMap s) < capacity s"
    and "cacheMap s = e # m" and "distinct (map fst (cacheMap s))"
    and "drawToCache E (s\<lparr>cacheMap := m\<rparr>) g (snd e) = Inr s1"
  shows "draw E s g x y =
           Inr (True,
                [drawFromCache (s1\<lparr>cacheMap := m @ [(getGlyphCacheKey g, snd e)]\<rparr>) (snd e) x y],
                s1\<lparr>cacheMap := m @ [(getGlyphCacheKey g, snd e)]\<rparr>)"
proof -
  from assms(6) have 1: "cacheMap s1 = m" using drawToCache_frame(1) by fastforce
  from assms(4,5) have 2: "mapShift (cacheMap s) = (Some e, m)" by (simp add: mapShift_Cons)
  from assms(1,4) have 3: "map_of m (getGlyphCacheKey g) = None" by (simp split: if_splits)
  from assms 1 2 3 show ?thesis by (simp add: draw_def Let_def update_absent)
qed

lemma draw_throw:
  assumes "map_of (cacheMap s) (getGlyphCacheKey g) = None" and "canCache g"
    and "\<not> length (cacheMap s) < capacity s" and "cacheMap s = []"
  shows "draw E s g x y = Inl TypeError"
  using assms by (simp add: draw_def mapShift_Nil)

lemma draws_snoc:
  "draws E s (cs @ [c]) =
     (case draws E s cs of
        Inl e \<Rightarrow> Inl e
      | Inr s' \<Rightarrow> (case draw E s' (fst c) (fst (snd c)) (snd (snd c)) of
                    Inl e \<Rightarrow> Inl e
                  | Inr r \<Rightarrow> Inr (snd (snd r))))"
  by (induction cs arbitrary: s) (auto split: sum.splits)

section \<open>Recency orders on lists of keys\<close>

lemma remdups_snoc: "remdups (ks @ [k]) = removeAll k (remdups ks) @ [k]"
  by (induction ks) auto

lemma length_removeAll_distinct:
  "distinct xs \<Longrightarrow> length (removeAll k xs) = (if k \<in> set xs then length xs - 1 else length xs)"
  by (metis distinct_remove1_removeAll length_remove1)

lemma lastn_hit:
  assumes d: "distinct R" and k: "k \<in> set (lastn C R)"
  shows "lastn C (removeAll k R @ [k]) = removeAll k (lastn C R) @ [k]"
proof -
  let ?n = "length R - C"
  have R: "R = take ?n R @ drop ?n R" by simp
  from k have kB: "k \<in> set (drop ?n R)" by (simp add: lastn_def)
  with d R have kA: "k \<notin> set (take ?n R)"
    by (metis IntI distinct_append empty_iff)
  then have rA: "removeAll k (take ?n R) = take ?n R" by simp
  have "removeAll k R = removeAll k (take ?n R) @ removeAll k (drop ?n R)"
    by (metis R removeAll_append)
  with rA have rR: "removeAll k R = take ?n R @ removeAll k (drop ?n R)" by simp
  from kB have "k \<in> set R" by (meson in_set_dropD)
  with d have len: "length (removeAll k R @ [k]) = length R"
    by (simp add: length_removeAll_distinct) (metis Suc_pred length_pos_if_in_set)
  have "lastn C (removeAll k R @ [k]) = drop ?n (take ?n R @ removeAll k (drop ?n R) @ [k])"
    unfolding lastn_def len using rR by simp
  also have "\<dots> = removeAll k (drop ?n R) @ [k]" by simp
  finally show ?thesis by (simp add: lastn_def)
qed

lemma lastn_short: "length R < C \<Longrightarrow> lastn C (R @ [k]) = R @ [k]"
  by (simp add: lastn_def)

lemma lastn_all: "length R \<le> C \<Longrightarrow> lastn C R = R"
  by (simp add: lastn_def)

lemma length_lastn: "length (lastn C R) = min C (length R)"
  by (simp add: lastn_def)

lemma lastn_evict:
  assumes d: "distinct R" and k: "k \<notin> set (lastn C R)" and full: "C \<le> length R" and C: "0 < C"
  shows "lastn C (removeAll k R @ [k]) = tl (lastn C R) @ [k]"
proof -
  let ?n = "length R - C"
  have R: "R = take ?n R @ drop ?n R" by simp
  from k have kB: "k \<notin> set (drop ?n R)" by (simp add: lastn_def)
  then have rB: "removeAll k (drop ?n R) = drop ?n R" by simp
  have "removeAll k R = removeAll k (take ?n R) @ removeAll k (drop ?n R)"
    by (metis R removeAll_append)
  with rB have rR: "removeAll k R = removeAll k (take ?n R) @ drop ?n R" by simp
  from full C have ne: "drop ?n R \<noteq> []" by simp
  show ?thesis
  proof (cases "k \<in> set R")
    case False
    then have "removeAll k R = R" by simp
    then have "lastn C (removeAll k R @ [k]) = drop (Suc (length R) - C) (R @ [k])"
      by (simp add: lastn_def)
    also from full C have "\<dots> = drop (Suc ?n) R @ [k]" by (simp add: Suc_diff_le)
    also have "\<dots> = tl (drop ?n R) @ [k]" by (simp add: drop_Suc tl_drop)
    finally show ?thesis by (simp add: lastn_def)
  next
    case True
    with kB R have kA: "k \<in> set (take ?n R)" by (metis Un_iff set_append)
    from d have "distinct (take ?n R)" by simp
    with kA have la: "length (removeAll k (take ?n R)) = ?n - 1"
      by (simp add: length_removeAll_distinct)
    from kA have pos: "0 < ?n" by (metis length_pos_if_in_set length_take min_less_iff_conj)
    from d True have len: "length (removeAll k R @ [k]) = length R"
      by (simp add: length_removeAll_distinct) (metis Suc_pred length_pos_if_in_set)
    have "lastn C (removeAll k R @ [k]) = drop ?n (removeAll k (take ?n R) @ drop ?n R @ [k])"
      unfolding lastn_def len using rR by simp
    also from la pos have "\<dots> = drop 1 (drop ?n R @ [k])" by simp
    also from ne have "\<dots> = tl (drop ?n R) @ [k]" by (cases "drop ?n R") simp_all
    finally show ?thesis by (simp add: lastn_def)
  qed
qed

lemma idle_snoc: "idle (ks @ [x]) k = (if k = x then 0 else Suc (idle ks k))"
  by (simp add: idle_def)

lemma idle_order:
  "sorted_wrt (\<lambda>a b. idle ks b < idle ks a) (remdups ks)"
proof (induction ks rule: rev_induct)
  case Nil
  then show ?case by simp
next
  case (snoc x ks)
  let ?P = "\<lambda>a b. idle ks b < idle ks a" and ?Q = "\<lambda>a b. idle (ks @ [x]) b < idle (ks @ [x]) a"
  from snoc have "sorted_wrt ?P (removeAll x (remdups ks))"
    by (simp add: removeAll_filter_not_eq sorted_wrt_filter)
  then have "sorted_wrt ?Q (removeAll x (remdups ks))"
    by (rule sorted_wrt_mono_rel [rotated]) (auto simp: idle_snoc)
  moreover have "\<forall>a \<in> set (removeAll x (remdups ks)). ?Q a x"
    by (auto simp: idle_snoc)
  ultimately show ?case by (simp add: remdups_snoc sorted_wrt_append)
qed




section \<open>The invariant of the map\<close>

lemma draw_miss:
  assumes miss: "map_of (cacheMap s) (getGlyphCacheKey g) = None" and cc: "canCache g"
    and dist: "distinct (map fst (cacheMap s))"
    and slot: "length (cacheMap s) < capacity s \<and> j = length (cacheMap s) \<and> m = cacheMap s
             \<or> \<not> length (cacheMap s) < capacity s \<and> cacheMap s = (k0, j) # m"
  shows "draw E s g x y =
          (case drawToCache E s g j of
             Inl e \<Rightarrow> Inl e
           | Inr s1 \<Rightarrow>
               Inr (True, [drawFromCache (s1\<lparr>cacheMap := m @ [(getGlyphCacheKey g, j)]\<rparr>) j x y],
                    s1\<lparr>cacheMap := m @ [(getGlyphCacheKey g, j)]\<rparr>))"
proof (cases "drawToCache E s g j")
  case (Inl e)
  then have "drawToCache E (s\<lparr>cacheMap := m\<rparr>) g j = Inl e"
    by (simp add: drawToCache_ignores_map)
  moreover from slot dist
  have "(if length (cacheMap s) < capacity s then Inr (length (cacheMap s), cacheMap s)
         else (case mapShift (cacheMap s) of (None, m) \<Rightarrow> Inl TypeError
               | (Some entry, m) \<Rightarrow> Inr (snd entry, m))) = Inr (j, m)"
    by (auto simp: mapShift_Cons)
  ultimately show ?thesis using Inl miss cc by (simp add: draw_def)
next
  case (Inr s1)
  from slot show ?thesis
  proof
    assume a: "length (cacheMap s) < capacity s \<and> j = length (cacheMap s) \<and> m = cacheMap s"
    with Inr have "drawToCache E s g (length (cacheMap s)) = Inr s1" by simp
    from draw_admit [OF miss cc _ this] a Inr show ?thesis by simp
  next
    assume a: "\<not> length (cacheMap s) < capacity s \<and> cacheMap s = (k0, j) # m"
    then have ge: "\<not> length (cacheMap s) < capacity s" and cm: "cacheMap s = (k0, j) # m"
      by blast+
    from Inr have "drawToCache E (s\<lparr>cacheMap := m\<rparr>) g (snd (k0, j)) = Inr (s1\<lparr>cacheMap := m\<rparr>)"
      by (simp add: drawToCache_ignores_map)
    from draw_evict [OF miss cc ge cm dist this, of x y] Inr show ?thesis by simp
  qed
qed

lemma split_entry:
  assumes "distinct (map fst m)" and "map_of m k = Some i"
  shows "\<exists>xs ys. m = xs @ (k, i) # ys \<and> filter (\<lambda>p. fst p \<noteq> k) m = xs @ ys"
proof -
  from assms(2) have "(k, i) \<in> set m" by (rule map_of_SomeD)
  then obtain xs ys where m: "m = xs @ (k, i) # ys" by (meson split_list)
  with assms(1) have "k \<notin> fst ` set xs" and "k \<notin> fst ` set ys" by auto
  then have "filter (\<lambda>p. fst p \<noteq> k) xs = xs" and "filter (\<lambda>p. fst p \<noteq> k) ys = ys"
    by (auto simp: filter_id_conv)
  with m have "m = xs @ (k, i) # ys \<and> filter (\<lambda>p. fst p \<noteq> k) m = xs @ ys" by simp
  then show ?thesis by blast
qed

lemma wellFormed_hit:
  assumes "wellFormed s" and "map_of (cacheMap s) k = Some i"
  shows "wellFormed (s\<lparr>cacheMap := filter (\<lambda>p. fst p \<noteq> k) (cacheMap s) @ [(k, i)]\<rparr>)"
proof -
  from assms obtain xs ys where m: "cacheMap s = xs @ (k, i) # ys"
    and f: "filter (\<lambda>p. fst p \<noteq> k) (cacheMap s) = xs @ ys"
    using split_entry [of "cacheMap s" k i] by (auto simp: wellFormed_def)
  from assms(1) show ?thesis
    unfolding wellFormed_def f by (auto simp: m)
qed

lemma wellFormed_admit:
  assumes "wellFormed s" and "map_of (cacheMap s) k = None" and "length (cacheMap s) < capacity s"
    and "capacity t = capacity s"
  shows "wellFormed (t\<lparr>cacheMap := cacheMap s @ [(k, length (cacheMap s))]\<rparr>)"
proof -
  from assms(2) have "k \<notin> fst ` set (cacheMap s)" by (simp add: map_of_eq_None_iff)
  with assms(1,3,4) show ?thesis
    by (auto simp: wellFormed_def atLeast0_lessThan_Suc)
qed

lemma wellFormed_evict:
  assumes "wellFormed s" and "map_of (cacheMap s) k = None" and "cacheMap s = (k0, j) # m"
    and "capacity t = capacity s"
  shows "wellFormed (t\<lparr>cacheMap := m @ [(k, j)]\<rparr>)"
proof -
  from assms(2) have "k \<notin> fst ` set (cacheMap s)" by (simp add: map_of_eq_None_iff)
  with assms(1,3,4) show ?thesis
    by (auto simp: wellFormed_def)
qed

lemma draw_preserves:
  assumes wf: "wellFormed s" and d: "draw E s g x y = Inr (b, out, s')"
  shows "wellFormed s'" and "capacity s' = capacity s" and "config s' = config s"
    and "width s' = width s" and "height s' = height s"
proof -
  let ?k = "getGlyphCacheKey g"
  from wf have dist: "distinct (map fst (cacheMap s))" by (simp add: wellFormed_def)
  have "wellFormed s' \<and> capacity s' = capacity s \<and> config s' = config s
          \<and> width s' = width s \<and> height s' = height s"
  proof (cases "map_of (cacheMap s) ?k")
    case (Some i)
    from draw_hit [OF Some, of E x y] d wellFormed_hit [OF wf Some] show ?thesis by auto
  next
    case None
    show ?thesis
    proof (cases "canCache g")
      case False
      from draw_reject [OF None False, of E x y] d wf show ?thesis by simp
    next
      case True
      show ?thesis
      proof (cases "length (cacheMap s) < capacity s")
        case lt: True
        then have sl: "length (cacheMap s) < capacity s \<and> length (cacheMap s) = length (cacheMap s)
            \<and> cacheMap s = cacheMap s \<or> \<not> length (cacheMap s) < capacity s \<and> cacheMap s = (undefined, length (cacheMap s)) # cacheMap s"
          by simp
        from draw_miss [OF None True dist sl, of E x y] d
        obtain s1 where s1: "drawToCache E s g (length (cacheMap s)) = Inr s1"
          and s': "s' = s1\<lparr>cacheMap := cacheMap s @ [(?k, length (cacheMap s))]\<rparr>"
          by (auto split: sum.splits)
        from drawToCache_frame [OF s1] wellFormed_admit [OF wf None lt, of s1] s'
        show ?thesis by simp
      next
        case ge: False
        show ?thesis
        proof (cases "cacheMap s")
          case Nil
          from draw_throw [OF None True ge Nil, of E x y] d show ?thesis by simp
        next
          case (Cons e m)
          then have sl: "length (cacheMap s) < capacity s \<and> snd e = length (cacheMap s)
            \<and> m = cacheMap s \<or> \<not> length (cacheMap s) < capacity s \<and> cacheMap s = (fst e, snd e) # m"
            using ge by simp
          from draw_miss [OF None True dist sl, of E x y] d
          obtain s1 where s1: "drawToCache E s g (snd e) = Inr s1"
            and s': "s' = s1\<lparr>cacheMap := m @ [(?k, snd e)]\<rparr>"
            by (auto split: sum.splits)
          from Cons have "cacheMap s = (fst e, snd e) # m" by simp
          from drawToCache_frame [OF s1] wellFormed_evict [OF wf None this, of s1] s'
          show ?thesis by simp
        qed
      qed
    qed
  qed
  then show "wellFormed s'" and "capacity s' = capacity s" and "config s' = config s"
    and "width s' = width s" and "height s' = height s" by simp_all
qed

lemma draws_preserve:
  assumes "wellFormed s" and "draws E s cs = Inr s'"
  shows "wellFormed s' \<and> capacity s' = capacity s \<and> config s' = config s
          \<and> width s' = width s \<and> height s' = height s"
  using assms
proof (induction cs arbitrary: s)
  case Nil
  then show ?case by simp
next
  case (Cons c cs)
  from Cons.prems(2) obtain r where r: "draw E s (fst c) (fst (snd c)) (snd (snd c)) = Inr r"
    and rest: "draws E (snd (snd r)) cs = Inr s'"
    by (auto split: sum.splits)
  from r have "draw E s (fst c) (fst (snd c)) (snd (snd c)) = Inr (fst r, fst (snd r), snd (snd r))"
    by simp
  from draw_preserves [OF Cons.prems(1) this] Cons.IH [OF _ rest] show ?case by simp
qed

lemma wellFormed_fresh: "cacheMap s = [] \<Longrightarrow> wellFormed s"
  by (simp add: wellFormed_def)


section \<open>Case analysis of a draw call that returns\<close>

lemma draw_cases [consumes 2, case_names hit reject admit evict]:
  assumes wf: "wellFormed s" and d: "draw E s g x y = Inr (b, out, s')"
  obtains
    (hit) i where "map_of (cacheMap s) (getGlyphCacheKey g) = Some i" and "b"
      and "s' = s\<lparr>cacheMap := filter (\<lambda>p. fst p \<noteq> getGlyphCacheKey g) (cacheMap s)
                                @ [(getGlyphCacheKey g, i)]\<rparr>"
      and "out = [drawFromCache s' i x y]"
  | (reject) "map_of (cacheMap s) (getGlyphCacheKey g) = None" and "\<not> canCache g" and "\<not> b"
      and "s' = s" and "out = []"
  | (admit) s1 where "map_of (cacheMap s) (getGlyphCacheKey g) = None" and "canCache g" and "b"
      and "length (cacheMap s) < capacity s"
      and "drawToCache E s g (length (cacheMap s)) = Inr s1"
      and "s' = s1\<lparr>cacheMap := cacheMap s @ [(getGlyphCacheKey g, length (cacheMap s))]\<rparr>"
      and "out = [drawFromCache s' (length (cacheMap s)) x y]"
  | (evict) s1 k0 j m where "map_of (cacheMap s) (getGlyphCacheKey g) = None" and "canCache g"
      and "b" and "\<not> length (cacheMap s) < capacity s" and "cacheMap s = (k0, j) # m"
      and "drawToCache E s g j = Inr s1"
      and "s' = s1\<lparr>cacheMap := m @ [(getGlyphCacheKey g, j)]\<rparr>"
      and "out = [drawFromCache s' j x y]"
proof -
  let ?k = "getGlyphCacheKey g"
  from wf have dist: "distinct (map fst (cacheMap s))" by (simp add: wellFormed_def)
  show thesis
  proof (cases "map_of (cacheMap s) ?k")
    case (Some i)
    from draw_hit [OF Some, of E x y] d hit [OF Some] show thesis by simp
  next
    case None
    show thesis
    proof (cases "canCache g")
      case False
      from draw_reject [OF None False, of E x y] d reject [OF None False] show thesis by simp
    next
      case True
      show thesis
      proof (cases "length (cacheMap s) < capacity s")
        case lt: True
        then have sl: "length (cacheMap s) < capacity s \<and> length (cacheMap s) = length (cacheMap s)
            \<and> cacheMap s = cacheMap s \<or> \<not> length (cacheMap s) < capacity s
            \<and> cacheMap s = (undefined, length (cacheMap s)) # cacheMap s"
          by simp
        from draw_miss [OF None True dist sl, of E x y] d
        obtain s1 where s1: "drawToCache E s g (length (cacheMap s)) = Inr s1"
          and r: "b" "s' = s1\<lparr>cacheMap := cacheMap s @ [(?k, length (cacheMap s))]\<rparr>"
            "out = [drawFromCache s' (length (cacheMap s)) x y]"
          by (auto split: sum.splits)
        from admit [OF None True r(1) lt s1 r(2) r(3)] show thesis .
      next
        case ge: False
        show thesis
        proof (cases "cacheMap s")
          case Nil
          from draw_throw [OF None True ge Nil, of E x y] d show thesis by simp
        next
          case (Cons e m)
          then have cm: "cacheMap s = (fst e, snd e) # m" by simp
          with ge have sl: "length (cacheMap s) < capacity s \<and> snd e = length (cacheMap s)
            \<and> m = cacheMap s \<or> \<not> length (cacheMap s) < capacity s \<and> cacheMap s = (fst e, snd e) # m"
            by blast
          from draw_miss [OF None True dist sl, of E x y] d
          obtain s1 where s1: "drawToCache E s g (snd e) = Inr s1"
            and r: "b" "s' = s1\<lparr>cacheMap := m @ [(?k, snd e)]\<rparr>"
              "out = [drawFromCache s' (snd e) x y]"
            by (auto split: sum.splits)
          from evict [OF None True r(1) ge cm s1 r(2) r(3)] show thesis .
        qed
      qed
    qed
  qed
qed

lemma draws_snoc_Inr:
  assumes "draws E s0 (cs @ [c]) = Inr s'"
  obtains s b out where "draws E s0 cs = Inr s"
    and "draw E s (fst c) (fst (snd c)) (snd (snd c)) = Inr (b, out, s')"
proof -
  from assms obtain s r where "draws E s0 cs = Inr s"
    and "draw E s (fst c) (fst (snd c)) (snd (snd c)) = Inr r" and "s' = snd (snd r)"
    by (auto simp: draws_snoc split: sum.splits)
  then show thesis using that [of s "fst r" "fst (snd r)"] by simp
qed

section \<open>The order of the map is the order of last access\<close>

lemma keys_after_filter: "map fst (filter (\<lambda>p. fst p \<noteq> k) m) = removeAll k (map fst m)"
  by (induction m) auto

lemma resident_iff: "k \<in> fst ` set m \<longleftrightarrow> map_of m k \<noteq> None"
  by (simp add: map_of_eq_None_iff)

lemma draw_step:
  assumes wf: "wellFormed s" and cap: "0 < capacity s"
    and ok: "canCache g \<longrightarrow> renderable E (config s) g"
  shows "\<exists>b out s'. draw E s g x y = Inr (b, out, s')
           \<and> map fst (cacheMap s') =
               (if getGlyphCacheKey g \<in> set (map fst (cacheMap s))
                then removeAll (getGlyphCacheKey g) (map fst (cacheMap s)) @ [getGlyphCacheKey g]
                else if \<not> canCache g then map fst (cacheMap s)
                else if length (cacheMap s) < capacity s
                then map fst (cacheMap s) @ [getGlyphCacheKey g]
                else tl (map fst (cacheMap s)) @ [getGlyphCacheKey g])"
proof -
  let ?k = "getGlyphCacheKey g"
  let ?keys = "\<lambda>s. if ?k \<in> set (map fst (cacheMap s))
                then removeAll ?k (map fst (cacheMap s)) @ [?k]
                else if \<not> canCache g then map fst (cacheMap s)
                else if length (cacheMap s) < capacity s
                then map fst (cacheMap s) @ [?k]
                else tl (map fst (cacheMap s)) @ [?k]"
  from wf have dist: "distinct (map fst (cacheMap s))" by (simp add: wellFormed_def)
  have "\<exists>r. draw E s g x y = Inr r \<and> map fst (cacheMap (snd (snd r))) = ?keys s"
  proof (cases "map_of (cacheMap s) ?k")
    case (Some i)
    then have "?k \<in> set (map fst (cacheMap s))"
      by (simp add: resident_iff)
    then have "?keys s = removeAll ?k (map fst (cacheMap s)) @ [?k]" by simp
    with draw_hit [OF Some, of E x y] show ?thesis by (simp add: keys_after_filter)
  next
    case None
    then have nk: "?k \<notin> set (map fst (cacheMap s))" by (simp add: resident_iff)
    show ?thesis
    proof (cases "canCache g")
      case False
      with nk have "?keys s = map fst (cacheMap s)" by simp
      with draw_reject [OF None False, of E x y] show ?thesis by simp
    next
      case True
      with ok have r: "renderable E (config s) g" by simp
      show ?thesis
      proof (cases "length (cacheMap s) < capacity s")
        case lt: True
        with nk True have K: "?keys s = map fst (cacheMap s) @ [?k]" by simp
        from drawToCache_total [OF r] obtain s1
          where s1: "drawToCache E s g (length (cacheMap s)) = Inr s1" by blast
        from draw_admit [OF None True lt s1, of x y] show ?thesis
          unfolding K by simp
      next
        case ge: False
        with cap obtain e m where Cons: "cacheMap s = e # m" by (cases "cacheMap s") auto
        with nk True ge have K: "?keys s = map fst m @ [?k]" by simp
        from r have "renderable E (config (s\<lparr>cacheMap := m\<rparr>)) g" by simp
        from drawToCache_total [OF this] obtain s1
          where s1: "drawToCache E (s\<lparr>cacheMap := m\<rparr>) g (snd e) = Inr s1" by blast
        from draw_evict [OF None True ge Cons dist s1, of x y] show ?thesis
          unfolding K by simp
      qed
    qed
  qed
  then show ?thesis by auto
qed


lemma accesses_snoc:
  "accesses (cs @ [c]) = (if canCache (fst c) then accesses cs @ [getGlyphCacheKey (fst c)] else accesses cs)"
  by (simp add: accesses_def)

lemma canCache_same_key:
  "getGlyphCacheKey g = getGlyphCacheKey g' \<Longrightarrow> canCache g = canCache g'"
  using getGlyphCacheKey_parts(5) [of g g'] by (simp add: canCache_def)

lemma accesses_cacheable:
  assumes "getGlyphCacheKey g \<in> set (accesses cs)"
  shows "canCache g"
proof -
  from assms obtain g' where "canCache g'" and "getGlyphCacheKey g' = getGlyphCacheKey g"
    by (auto simp: accesses_def)
  then show ?thesis using canCache_same_key by blast
qed

lemma set_lastn_subset: "set (lastn C R) \<subseteq> set R"
  by (simp add: lastn_def set_drop_subset)

lemma lru_step:
  assumes L: "L = lastn C (remdups ks)" and C: "0 < C"
    and cons: "k \<in> set ks \<longrightarrow> cc"
    and L': "L' = (if k \<in> set L then removeAll k L @ [k]
                   else if \<not> cc then L
                   else if length L < C then L @ [k]
                   else tl L @ [k])"
  shows "L' = lastn C (remdups (if cc then ks @ [k] else ks))"
proof -
  let ?R = "remdups ks"
  have len: "length L = min C (length ?R)" using L by (simp add: length_lastn)
  show ?thesis
  proof (cases "k \<in> set L")
    case True
    with L have "k \<in> set ks" using set_lastn_subset [of C ?R] by auto
    with cons have cc by simp
    from True L' have "L' = removeAll k L @ [k]" by (simp only: if_True)
    also have "\<dots> = removeAll k (lastn C ?R) @ [k]" by (simp only: L)
    also have "\<dots> = lastn C (removeAll k ?R @ [k])"
      using True L by (intro lastn_hit [symmetric]) simp_all
    finally show ?thesis using \<open>cc\<close> by (simp only: remdups_snoc if_True)
  next
    case False
    show ?thesis
    proof (cases cc)
      case nc: False
      with False L' have "L' = L" by (simp only: if_False if_True not_False_eq_True)
      with nc L show ?thesis by (simp only: if_False)
    next
      case cc: True
      show ?thesis
      proof (cases "length ?R < C")
        case True
        then have all: "lastn C ?R = ?R" by (simp add: lastn_all)
        with False L have "k \<notin> set ?R" by simp
        then have rem: "removeAll k ?R = ?R" by (rule removeAll_id)
        from True len have "length L < C" by simp
        with False cc L' have "L' = L @ [k]"
          by (simp only: if_False if_True not_True_eq_False)
        also have "\<dots> = ?R @ [k]" by (simp only: L all)
        also from True have "\<dots> = lastn C (?R @ [k])" by (simp only: lastn_short)
        finally show ?thesis using cc by (simp only: remdups_snoc rem if_True)
      next
        case full: False
        with len have "\<not> length L < C" by simp
        with False cc L' have "L' = tl L @ [k]"
          by (simp only: if_False if_True not_True_eq_False)
        also have "\<dots> = tl (lastn C ?R) @ [k]" by (simp only: L)
        also have "\<dots> = lastn C (removeAll k ?R @ [k])"
          using full C False L by (intro lastn_evict [symmetric]) simp_all
        finally show ?thesis using cc by (simp only: remdups_snoc if_True)
      qed
    qed
  qed
qed

lemma draw_keys:
  assumes wf: "wellFormed s" and d: "draw E s g x y = Inr (b, out, s')"
  shows "map fst (cacheMap s') =
           (if getGlyphCacheKey g \<in> set (map fst (cacheMap s))
            then removeAll (getGlyphCacheKey g) (map fst (cacheMap s)) @ [getGlyphCacheKey g]
            else if \<not> canCache g then map fst (cacheMap s)
            else if length (map fst (cacheMap s)) < capacity s
            then map fst (cacheMap s) @ [getGlyphCacheKey g]
            else tl (map fst (cacheMap s)) @ [getGlyphCacheKey g])"
  using wf d
proof (cases rule: draw_cases)
  case (hit i)
  from hit(1) have "getGlyphCacheKey g \<in> set (map fst (cacheMap s))" by (simp add: resident_iff)
  with hit(3) show ?thesis by (simp add: keys_after_filter)
next
  case reject
  from reject(1) have "getGlyphCacheKey g \<notin> set (map fst (cacheMap s))"
    by (simp add: resident_iff)
  with reject show ?thesis by simp
next
  case (admit s1)
  from admit(1) have "getGlyphCacheKey g \<notin> set (map fst (cacheMap s))"
    by (simp add: resident_iff)
  with admit show ?thesis by simp
next
  case (evict s1 k0 j m)
  from evict(1) have "getGlyphCacheKey g \<notin> set (map fst (cacheMap s))"
    by (simp add: resident_iff)
  with evict(2,4) have "(if getGlyphCacheKey g \<in> set (map fst (cacheMap s))
            then removeAll (getGlyphCacheKey g) (map fst (cacheMap s)) @ [getGlyphCacheKey g]
            else if \<not> canCache g then map fst (cacheMap s)
            else if length (map fst (cacheMap s)) < capacity s
            then map fst (cacheMap s) @ [getGlyphCacheKey g]
            else tl (map fst (cacheMap s)) @ [getGlyphCacheKey g])
          = tl (map fst (cacheMap s)) @ [getGlyphCacheKey g]" by simp
  with evict(5,7) show ?thesis by simp
qed

lemma lru_order_run:
  assumes fresh: "cacheMap s0 = []" and cap: "0 < capacity s0"
  shows "draws E s0 cs = Inr s \<Longrightarrow>
         map fst (cacheMap s) = lastn (capacity s0) (remdups (accesses cs))"
proof (induction cs arbitrary: s rule: rev_induct)
  case Nil
  with fresh show ?case by (simp add: accesses_def lastn_def)
next
  case (snoc c cs s')
  from snoc.prems obtain s b out where run: "draws E s0 cs = Inr s"
    and d: "draw E s (fst c) (fst (snd c)) (snd (snd c)) = Inr (b, out, s')"
    by (rule draws_snoc_Inr)
  from draws_preserve [OF wellFormed_fresh [OF fresh] run]
  have wf: "wellFormed s" and c: "capacity s = capacity s0" by simp_all
  from snoc.IH [OF run]
  have L: "map fst (cacheMap s) = lastn (capacity s0) (remdups (accesses cs))" .
  have cons: "getGlyphCacheKey (fst c) \<in> set (accesses cs) \<longrightarrow> canCache (fst c)"
    using accesses_cacheable by blast
  from draw_keys [OF wf d] c
  have "map fst (cacheMap s') =
           (if getGlyphCacheKey (fst c) \<in> set (map fst (cacheMap s))
            then removeAll (getGlyphCacheKey (fst c)) (map fst (cacheMap s)) @ [getGlyphCacheKey (fst c)]
            else if \<not> canCache (fst c) then map fst (cacheMap s)
            else if length (map fst (cacheMap s)) < capacity s0
            then map fst (cacheMap s) @ [getGlyphCacheKey (fst c)]
            else tl (map fst (cacheMap s)) @ [getGlyphCacheKey (fst c)])"
    by simp
  from lru_step [OF L cap cons this] show ?case by (simp only: accesses_snoc)
qed

lemma draws_total:
  assumes wf: "wellFormed s0" and cap: "0 < capacity s0"
    and ok: "\<forall>c \<in> set cs. canCache (fst c) \<longrightarrow> renderable E (config s0) (fst c)"
  shows "\<exists>s. draws E s0 cs = Inr s"
  using wf cap ok
proof (induction cs arbitrary: s0)
  case Nil
  then show ?case by simp
next
  case (Cons c cs)
  from Cons.prems(3) have "canCache (fst c) \<longrightarrow> renderable E (config s0) (fst c)" by simp
  from draw_step [OF Cons.prems(1,2) this, of "fst (snd c)" "snd (snd c)"]
  obtain b out s' where d: "draw E s0 (fst c) (fst (snd c)) (snd (snd c)) = Inr (b, out, s')"
    by blast
  from draw_preserves [OF Cons.prems(1) d]
  have "wellFormed s'" and "capacity s' = capacity s0" and "config s' = config s0" by simp_all
  with Cons.IH [of s'] Cons.prems(2,3) obtain s where "draws E s' cs = Inr s" by auto
  with d show ?case by simp
qed

section \<open>Slots while the atlas fills\<close>





section \<open>Uncacheable glyphs\<close>

lemma canCache_first_unit: "canCache g \<longleftrightarrow> (\<exists>c cs. char g = c # cs \<and> unat c < 256)"
  by (auto simp: canCache_def word_less_nat_alt split: list.splits)

lemma codePointAt0_below_256:
  "(\<exists>p. codePointAt0 cs = Some p \<and> p < 256) \<longleftrightarrow> (\<exists>c ds. cs = c # ds \<and> unat c < 256)"
proof (cases cs)
  case Nil
  then show ?thesis by (simp add: codePointAt0_def)
next
  case (Cons c ds)
  show ?thesis
  proof (cases ds)
    case Nil
    with Cons show ?thesis by (simp add: codePointAt0_def)
  next
    case (Cons d es)
    have "\<not> unat c < 256" if "0xD800 \<le> c"
    proof -
      from that have "unat (0xD800 :: 16 word) \<le> unat c" by (simp add: word_le_nat_alt)
      then show ?thesis by simp
    qed
    with Cons \<open>cs = c # ds\<close> show ?thesis by (auto simp: codePointAt0_def)
  qed
qed

text \<open>
  C4: \<open>draw\<close> returns false exactly when the key of the glyph is not in the map and
  \<open>canCache\<close> rejects the glyph; it then makes no call on the destination and leaves the
  whole state (map, atlas, scratch context) as it was. \<open>canCache\<close> accepts exactly the
  glyphs whose first code unit is below 256, which are the glyphs whose first code point
  is below 256, whatever the colours and the flags are.
\<close>

theorem draw_false_iff_uncacheable_miss:
  "((\<exists>out s'. draw E s g x y = Inr (False, out, s'))
      \<longleftrightarrow> map_of (cacheMap s) (getGlyphCacheKey g) = None \<and> \<not> canCache g)
   \<and> (\<forall>out s'. draw E s g x y = Inr (False, out, s') \<longrightarrow> out = [] \<and> s' = s)
   \<and> (canCache g \<longleftrightarrow> (\<exists>c cs. char g = c # cs \<and> unat c < 256))
   \<and> (canCache g \<longleftrightarrow> (\<exists>p. codePointAt0 (char g) = Some p \<and> p < 256))
   \<and> canCache (g\<lparr>bg := b, fg := f, bold := bo, dim := d\<rparr>) = canCache g"
proof -
  have 1: "draw E s g x y = Inr (False, out, s') \<Longrightarrow>
             map_of (cacheMap s) (getGlyphCacheKey g) = None \<and> \<not> canCache g \<and> out = [] \<and> s' = s"
    for out s'
    by (auto simp: draw_def Let_def split: option.splits if_splits sum.splits prod.splits)
  have 2: "map_of (cacheMap s) (getGlyphCacheKey g) = None \<and> \<not> canCache g \<Longrightarrow>
             draw E s g x y = Inr (False, [], s)"
    by (simp add: draw_reject)
  have 3: "canCache (g\<lparr>bg := b, fg := f, bold := bo, dim := d\<rparr>) = canCache g"
    by (simp add: canCache_def)
  from 1 2 have a: "(\<exists>out s'. draw E s g x y = Inr (False, out, s'))
      \<longleftrightarrow> map_of (cacheMap s) (getGlyphCacheKey g) = None \<and> \<not> canCache g" by blast
  from 1 have b: "\<forall>out s'. draw E s g x y = Inr (False, out, s') \<longrightarrow> out = [] \<and> s' = s" by blast
  have c: "canCache g \<longleftrightarrow> (\<exists>p. codePointAt0 (char g) = Some p \<and> p < 256)"
    using canCache_first_unit codePointAt0_below_256 by simp
  from a b c 3 canCache_first_unit show ?thesis by blast
qed

theorem draw_false_witness:
  "\<not> canCache (exampleGlyph 0x4E2D)
   \<and> draw exampleEnv (constructor_with 2 1 (exampleConfig 1 1)) (exampleGlyph 0x4E2D) 0 0
       = Inr (False, [], constructor_with 2 1 (exampleConfig 1 1))"
proof -
  let ?s = "constructor_with 2 1 (exampleConfig 1 1)" and ?g = "exampleGlyph 0x4E2D"
  have nc: "\<not> canCache ?g" by (simp add: canCache_def exampleGlyph_def)
  have miss: "map_of (cacheMap ?s) (getGlyphCacheKey ?g) = None"
    by (simp add: constructor_with_def)
  from draw_false_iff_uncacheable_miss [of exampleEnv ?s ?g 0 0] nc miss
  obtain out s' where d: "draw exampleEnv ?s ?g 0 0 = Inr (False, out, s')" by blast
  with draw_false_iff_uncacheable_miss [of exampleEnv ?s ?g 0 0]
  have "out = [] \<and> s' = ?s" by blast
  with d nc show ?thesis by simp
qed

section \<open>Filling the atlas, then evicting\<close>




section \<open>A draw call that throws\<close>

text \<open>
  C9: \<open>draw\<close> can throw. With cells wider than the texture the capacity is 0; the first
  cacheable glyph finds the map empty and not below the capacity, \<open>mapShift\<close> returns
  \<open>undefined\<close>, and reading its second component is a \<open>TypeError\<close>.
\<close>

theorem draw_throws_at_capacity_zero:
  "capacity (constructor (exampleConfig 1025 16)) = 0
   \<and> draw exampleEnv (constructor (exampleConfig 1025 16)) (exampleGlyph 0x41) 0 0 = Inl TypeError"
proof -
  let ?s = "constructor (exampleConfig 1025 16)"
  have c: "capacity ?s = 0" and m: "cacheMap ?s = []"
    by (simp_all add: constructor_def constructor_with_def exampleConfig_def TEXTURE_WIDTH_def)
  have cc: "canCache (exampleGlyph 0x41)" by (simp add: canCache_def exampleGlyph_def)
  from m have miss: "map_of (cacheMap ?s) (getGlyphCacheKey (exampleGlyph 0x41)) = None" by simp
  from c m have ge: "\<not> length (cacheMap ?s) < capacity ?s" by simp
  from draw_throw [OF miss cc ge m] c show ?thesis by simp
qed

section \<open>A hit protects its key from the next eviction\<close>

lemma idle_sorted_lastn:
  "sorted_wrt (\<lambda>a b. idle ks b < idle ks a) (lastn C (remdups ks))"
  unfolding lastn_def by (rule sorted_wrt_drop) (rule idle_order)

text \<open>
  C2, as the spec states it, fails at capacity 1: the map holds one key, a draw hits it,
  and the next new cacheable glyph evicts that very key.
\<close>

theorem hit_at_capacity_one_is_evicted:
  "capacity (constructor_with 1 1 (exampleConfig 1 1)) = 1
   \<and> map_sum id (map fst \<circ> cacheMap)
        (draws exampleEnv (constructor_with 1 1 (exampleConfig 1 1)) [(exampleGlyph 0x41, 0, 0)])
       = Inr [getGlyphCacheKey (exampleGlyph 0x41)]
   \<and> map_sum id (map fst \<circ> cacheMap)
        (draws exampleEnv (constructor_with 1 1 (exampleConfig 1 1))
           [(exampleGlyph 0x41, 0, 0), (exampleGlyph 0x41, 0, 0)])
       = Inr [getGlyphCacheKey (exampleGlyph 0x41)]
   \<and> map_sum id (map fst \<circ> cacheMap)
        (draws exampleEnv (constructor_with 1 1 (exampleConfig 1 1))
           [(exampleGlyph 0x41, 0, 0), (exampleGlyph 0x41, 0, 0), (exampleGlyph 0x42, 0, 0)])
       = Inr [getGlyphCacheKey (exampleGlyph 0x42)]"
proof -
  let ?s0 = "constructor_with 1 1 (exampleConfig 1 1)"
  have h1: "cacheMap ?s0 = []" by (rule example_fresh)
  have c: "capacity ?s0 = 1" by (simp add: constructor_with_def exampleConfig_def)
  then have pos: "0 < capacity ?s0" by simp
  have keys: "map_sum id (map fst \<circ> cacheMap) (draws exampleEnv ?s0 cs)
                = Inr (lastn 1 (remdups (accesses cs)))"
    if "\<forall>c \<in> set cs. canCache (fst c) \<longrightarrow> renderable exampleEnv (config ?s0) (fst c)" for cs
  proof -
    from draws_total [OF wellFormed_fresh [OF h1] pos that]
    obtain s where run: "draws exampleEnv ?s0 cs = Inr s" by blast
    from lru_order_run [OF h1 pos run] c run show ?thesis by simp
  qed
  have 1: "map_sum id (map fst \<circ> cacheMap) (draws exampleEnv ?s0 [(exampleGlyph 0x41, 0, 0)])
       = Inr [getGlyphCacheKey (exampleGlyph 0x41)]"
    by (subst keys) (simp_all add: exampleGlyph_renderable accesses_def exampleGlyph_canCache lastn_def)
  have 2: "map_sum id (map fst \<circ> cacheMap)
        (draws exampleEnv ?s0 [(exampleGlyph 0x41, 0, 0), (exampleGlyph 0x41, 0, 0)])
       = Inr [getGlyphCacheKey (exampleGlyph 0x41)]"
    by (subst keys) (simp_all add: exampleGlyph_renderable accesses_def exampleGlyph_canCache lastn_def)
  have 3: "map_sum id (map fst \<circ> cacheMap)
        (draws exampleEnv ?s0
           [(exampleGlyph 0x41, 0, 0), (exampleGlyph 0x41, 0, 0), (exampleGlyph 0x42, 0, 0)])
       = Inr [getGlyphCacheKey (exampleGlyph 0x42)]"
    by (subst keys)
      (simp_all add: exampleGlyph_renderable accesses_def exampleGlyph_canCache lastn_def
        exampleGlyph_key_eq)
  from c 1 2 3 show ?thesis by (intro conjI)
qed

text \<open>
  C2, amended: in a cache of capacity at least 2 that a sequence of draw calls has filled
  (the map holds exactly \<open>capacity\<close> keys), after a draw that hits the key \<open>K\<close> the next
  draw of a new cacheable glyph evicts the key that was least recently accessed among the
  resident keys other than \<open>K\<close>; the new key takes its slot, and \<open>K\<close> stays in the map with
  its slot.
\<close>

theorem hit_then_admit_spares_hit_key:
  assumes fresh: "cacheMap s0 = []" and cap: "2 \<le> capacity s0"
    and run: "draws E s0 cs = Inr s"
    and full: "length (cacheMap s) = capacity s"
    and res: "map_of (cacheMap s) (getGlyphCacheKey gK) = Some i"
    and cc: "canCache g" and r: "renderable E (config s0) g"
    and new: "map_of (cacheMap s) (getGlyphCacheKey g) = None"
  shows "\<exists>o1 s1 o2 s2 victim j.
            draw E s gK x y = Inr (True, o1, s1)
          \<and> draw E s1 g x' y' = Inr (True, o2, s2)
          \<and> victim \<noteq> getGlyphCacheKey gK
          \<and> map_of (cacheMap s) victim = Some j
          \<and> (\<forall>k \<in> fst ` set (cacheMap s). k \<noteq> getGlyphCacheKey gK \<and> k \<noteq> victim \<longrightarrow>
                idle (accesses cs) k < idle (accesses cs) victim)
          \<and> hd (cacheMap s1) = (victim, j)
          \<and> cacheMap s2 = tl (cacheMap s1) @ [(getGlyphCacheKey g, j)]
          \<and> map_of (cacheMap s2) (getGlyphCacheKey gK) = Some i
          \<and> map_of (cacheMap s2) victim = None"
proof -
  let ?K = "getGlyphCacheKey gK" and ?k = "getGlyphCacheKey g"
  let ?Q = "\<lambda>a b. idle (accesses cs) b < idle (accesses cs) a"
  from cap have pos: "0 < capacity s0" by simp
  from draws_preserve [OF wellFormed_fresh [OF fresh] run]
  have wf: "wellFormed s" and c: "capacity s = capacity s0" and cfg: "config s = config s0"
    by simp_all
  from wf have dist: "distinct (map fst (cacheMap s))" by (simp add: wellFormed_def)
  from lru_order_run [OF fresh pos run]
  have sorted: "sorted_wrt ?Q (map fst (cacheMap s))" by (simp add: idle_sorted_lastn)
  from split_entry [OF dist res] obtain xs ys where m: "cacheMap s = xs @ (?K, i) # ys"
    and f: "filter (\<lambda>p. fst p \<noteq> ?K) (cacheMap s) = xs @ ys" by blast
  obtain s1 where s1: "s1 = s\<lparr>cacheMap := filter (\<lambda>p. fst p \<noteq> ?K) (cacheMap s) @ [(?K, i)]\<rparr>"
    by simp
  from draw_hit [OF res, of E x y]
  have d1: "draw E s gK x y = Inr (True, [drawFromCache s1 i x y], s1)" by (simp only: s1)
  from wellFormed_hit [OF wf res] have wf1: "wellFormed s1" by (simp only: s1)
  then have dist1: "distinct (map fst (cacheMap s1))" by (simp add: wellFormed_def)
  from s1 f have m1: "cacheMap s1 = (xs @ ys) @ [(?K, i)]" by simp
  from s1 c cfg have c1: "capacity s1 = capacity s0" and cfg1: "config s1 = config s0" by simp_all
  from m full c cap have "2 \<le> length (xs @ (?K, i) # ys)" by simp
  then have "xs @ ys \<noteq> []" by (cases xs; cases ys) simp_all
  then obtain v j rest where xy: "xs @ ys = (v, j) # rest" by (cases "xs @ ys") auto
  from m1 have cm1: "cacheMap s1 = (v, j) # (rest @ [(?K, i)])" by (simp only: xy append_Cons)
  have "(v, j) \<in> set (xs @ ys)" by (simp only: xy list.set_intros(1))
  then have vin: "(v, j) \<in> set xs \<union> set ys" by simp
  with m have vm: "(v, j) \<in> set (cacheMap s)" by auto
  from dist m have Kx: "?K \<notin> fst ` set xs" and Ky: "?K \<notin> fst ` set ys" by auto
  with vin have vK: "v \<noteq> ?K" by force
  from vm dist have vj: "map_of (cacheMap s) v = Some j" by (simp add: map_of_is_SomeI)
  from new vj have kv: "?k \<noteq> v" by auto
  from new res have kK: "?k \<noteq> ?K" by auto
  from new have "?k \<notin> fst ` set (cacheMap s)" by (simp add: map_of_eq_None_iff)
  with m m1 have nk1: "?k \<notin> fst ` set (cacheMap s1)" by auto
  then have miss1: "map_of (cacheMap s1) ?k = None"
    by (rule iffD2 [OF map_of_eq_None_iff])
  from m1 m full c c1 have ge1: "\<not> length (cacheMap s1) < capacity s1" by simp
  from r cfg1 have "renderable E (config (s1\<lparr>cacheMap := rest @ [(?K, i)]\<rparr>)) g" by simp
  from drawToCache_total [OF this] obtain t
    where t: "drawToCache E (s1\<lparr>cacheMap := rest @ [(?K, i)]\<rparr>) g (snd (v, j)) = Inr t" by blast
  obtain s2 where s2: "s2 = t\<lparr>cacheMap := (rest @ [(?K, i)]) @ [(?k, snd (v, j))]\<rparr>" by simp
  from draw_evict [OF miss1 cc ge1 cm1 dist1 t, of x' y']
  have d2: "draw E s1 g x' y' = Inr (True, [drawFromCache s2 j x' y'], s2)"
    by (simp only: s2 snd_conv)
  from s2 have m2': "cacheMap s2 = rest @ [(?K, i), (?k, j)]" by simp
  have hd1: "hd (cacheMap s1) = (v, j)" by (simp only: cm1 list.sel)
  have m2: "cacheMap s2 = tl (cacheMap s1) @ [(?k, j)]" by (simp only: cm1 m2' list.sel) simp
  note dist1 [unfolded cm1]
  then have d3: "distinct (map fst (rest @ [(?K, i)]))" and vr: "v \<notin> fst ` set (rest @ [(?K, i)])"
    by auto
  note nk1 [unfolded cm1]
  with d3 have "distinct (map fst (rest @ [(?K, i), (?k, j)]))" by auto
  then have K2: "map_of (cacheMap s2) ?K = Some i"
    unfolding m2' by (rule map_of_is_SomeI) simp
  from vr kv have "v \<notin> fst ` set (rest @ [(?K, i), (?k, j)])" by auto
  then have v2: "map_of (cacheMap s2) v = None"
    unfolding m2' by (rule iffD2 [OF map_of_eq_None_iff])
  have lru: "\<forall>k \<in> fst ` set (cacheMap s). k \<noteq> ?K \<and> k \<noteq> v \<longrightarrow>
               idle (accesses cs) k < idle (accesses cs) v"
  proof (intro ballI impI)
    fix k assume k: "k \<in> fst ` set (cacheMap s)" and ne: "k \<noteq> ?K \<and> k \<noteq> v"
    from sorted have "sorted_wrt ?Q (removeAll ?K (map fst (cacheMap s)))"
      by (simp add: removeAll_filter_not_eq sorted_wrt_filter)
    moreover have "removeAll ?K (map fst (cacheMap s)) = map fst (xs @ ys)"
      by (simp only: keys_after_filter [symmetric] f)
    ultimately have "sorted_wrt ?Q (v # map fst rest)" by (simp add: xy)
    moreover from k m have "k \<in> fst ` (set xs \<union> set ys) \<or> k = ?K" by auto
    with ne have "k \<in> fst ` set (xs @ ys)" by simp
    with ne have "k \<in> set (map fst rest)" by (simp add: xy)
    ultimately show "idle (accesses cs) k < idle (accesses cs) v" by auto
  qed
  show ?thesis
    by (intro exI conjI) (rule d1, rule d2, rule vK, rule vj, rule lru, rule hd1, rule m2,
        rule K2, rule v2)
qed

theorem hit_then_admit_witness:
  "\<exists>s o1 s1 o2 s2.
      draws exampleEnv (constructor_with 2 1 (exampleConfig 1 1))
        [(exampleGlyph 0x41, 0, 0), (exampleGlyph 0x42, 0, 0)] = Inr s
    \<and> map fst (cacheMap s) = [getGlyphCacheKey (exampleGlyph 0x41), getGlyphCacheKey (exampleGlyph 0x42)]
    \<and> length (cacheMap s) = capacity s
    \<and> draw exampleEnv s (exampleGlyph 0x41) 0 0 = Inr (True, o1, s1)
    \<and> draw exampleEnv s1 (exampleGlyph 0x43) 0 0 = Inr (True, o2, s2)
    \<and> map_of (cacheMap s2) (getGlyphCacheKey (exampleGlyph 0x41))
        = map_of (cacheMap s) (getGlyphCacheKey (exampleGlyph 0x41))
    \<and> map_of (cacheMap s) (getGlyphCacheKey (exampleGlyph 0x42)) = Some (snd (hd (cacheMap s1)))
    \<and> map_of (cacheMap s2) (getGlyphCacheKey (exampleGlyph 0x42)) = None"
proof -
  let ?s0 = "constructor_with 2 1 (exampleConfig 1 1)"
  let ?cs = "[(exampleGlyph 0x41, 0, 0), (exampleGlyph 0x42, 0, 0)]
               :: (IGlyphIdentifier \<times> int \<times> int) list"
  let ?A = "getGlyphCacheKey (exampleGlyph 0x41)" and ?B = "getGlyphCacheKey (exampleGlyph 0x42)"
  let ?C = "getGlyphCacheKey (exampleGlyph 0x43)"
  have acc: "accesses ?cs = [?A, ?B]" by (simp add: accesses_def exampleGlyph_canCache)
  have h1: "cacheMap ?s0 = []" by (rule example_fresh)
  have c: "capacity ?s0 = 2" by (simp add: constructor_with_def exampleConfig_def)
  then have pos: "0 < capacity ?s0" and cap: "2 \<le> capacity ?s0" by simp_all
  have h3: "\<forall>c \<in> set ?cs. canCache (fst c) \<longrightarrow> renderable exampleEnv (config ?s0) (fst c)"
    by (simp add: exampleGlyph_renderable)
  from draws_total [OF wellFormed_fresh [OF h1] pos h3]
  obtain s where run: "draws exampleEnv ?s0 ?cs = Inr s" by blast
  from lru_order_run [OF h1 pos run] c
  have "map fst (cacheMap s) = lastn 2 (remdups (accesses ?cs))" by simp
  then have k: "map fst (cacheMap s) = [?A, ?B]"
    by (simp add: acc lastn_def exampleGlyph_key_eq)
  from draws_preserve [OF wellFormed_fresh [OF h1] run] c have cs: "capacity s = 2" by simp
  from k have "length (map fst (cacheMap s)) = 2" by simp
  with cs have full: "length (cacheMap s) = capacity s" by simp
  from k have dom: "fst ` set (cacheMap s) = {?A, ?B}" by (metis image_set list.set(1) list.set(2))
  then have "map_of (cacheMap s) ?A \<noteq> None" by (simp add: map_of_eq_None_iff)
  then obtain i where res: "map_of (cacheMap s) ?A = Some i" by blast
  from dom have new: "map_of (cacheMap s) ?C = None"
    by (simp add: map_of_eq_None_iff exampleGlyph_key_eq)
  have cc: "canCache (exampleGlyph 0x43)" by (simp add: exampleGlyph_canCache)
  have r: "renderable exampleEnv (config ?s0) (exampleGlyph 0x43)" by (rule exampleGlyph_renderable)
  from hit_then_admit_spares_hit_key [OF h1 cap run full res cc r new, of 0 0 0 0]
  obtain o1 s1 o2 s2 victim j
    where d1: "draw exampleEnv s (exampleGlyph 0x41) 0 0 = Inr (True, o1, s1)"
      and d2: "draw exampleEnv s1 (exampleGlyph 0x43) 0 0 = Inr (True, o2, s2)"
      and vK: "victim \<noteq> ?A" and vj: "map_of (cacheMap s) victim = Some j"
      and hd1: "hd (cacheMap s1) = (victim, j)"
      and K2: "map_of (cacheMap s2) ?A = Some i" and v2: "map_of (cacheMap s2) victim = None"
    by blast
  from vj have "victim \<in> fst ` set (cacheMap s)" by (metis map_of_eq_None_iff option.distinct(1))
  with dom vK have v: "victim = ?B" by simp
  from K2 res have K2': "map_of (cacheMap s2) ?A = map_of (cacheMap s) ?A" by simp
  from vj v hd1 have vj': "map_of (cacheMap s) ?B = Some (snd (hd (cacheMap s1)))" by simp
  from v2 v have v2': "map_of (cacheMap s2) ?B = None" by simp
  show ?thesis
    by (rule exI [of _ s], rule exI [of _ o1], rule exI [of _ s1], rule exI [of _ o2],
        rule exI [of _ s2]) (intro conjI run k full d1 d2 K2' vj' v2')
qed

section \<open>The size of the atlas\<close>

text \<open>
  C10, as the spec states it, fails: no configuration gives an atlas of another size than
  1024 by 1024. With cells of 8 by 16 pixels the atlas is not one cell: it holds 8192.
\<close>

theorem atlas_size_not_configurable:
  "\<not> (\<exists>cfg. canvas_width (cacheCanvas (constructor cfg)) \<noteq> 1024
            \<or> canvas_height (cacheCanvas (constructor cfg)) \<noteq> 1024)
   \<and> canvas_width (cacheCanvas (constructor (exampleConfig 8 16))) = 1024
   \<and> canvas_height (cacheCanvas (constructor (exampleConfig 8 16))) = 1024
   \<and> capacity (constructor (exampleConfig 8 16)) = 8192"
  by (simp add: constructor_def constructor_with_def TEXTURE_WIDTH_def TEXTURE_HEIGHT_def
      exampleConfig_def)

text \<open>
  C10, amended: the size of the atlas is the pair of module constants, 1024 by 1024, for
  every instance; the constructor takes it from the constants, not from the configuration.
  The surface has that size and the capacity is \<open>floor(1024 / cellWidth) * floor(1024 /
  cellHeight)\<close>. With other values of the constants, the surface and the capacity follow
  them.
\<close>

theorem constructor_texture_fixed:
  "constructor cfg = constructor_with TEXTURE_WIDTH TEXTURE_HEIGHT cfg
   \<and> TEXTURE_WIDTH = 1024 \<and> TEXTURE_HEIGHT = 1024
   \<and> canvas_width (cacheCanvas (constructor cfg)) = 1024
   \<and> canvas_height (cacheCanvas (constructor cfg)) = 1024
   \<and> width (constructor cfg) = 1024 div scaledCharWidth cfg
   \<and> height (constructor cfg) = 1024 div scaledCharHeight cfg
   \<and> capacity (constructor cfg) = (1024 div scaledCharWidth cfg) * (1024 div scaledCharHeight cfg)
   \<and> canvas_width (cacheCanvas (constructor_with w h cfg)) = w
   \<and> canvas_height (cacheCanvas (constructor_with w h cfg)) = h
   \<and> capacity (constructor_with w h cfg) = (w div scaledCharWidth cfg) * (h div scaledCharHeight cfg)"
  by (simp add: constructor_def constructor_with_def TEXTURE_WIDTH_def TEXTURE_HEIGHT_def)

section \<open>The hit path\<close>











section \<open>Rasterizing a glyph\<close>

lemma renderable_resolves:
  assumes "renderable E cfg g"
  shows "(if bg g = INVERTED_DEFAULT_COLOR E then Some (foreground (colors cfg))
          else if bg g < 256 then ansiAt (ansi (colors cfg)) (bg g)
          else Some (background (colors cfg)))
         = Some (spec_effectiveBackground E (colors cfg) (bg g))"
    and "(if fg g = INVERTED_DEFAULT_COLOR E then Some (css (background (colors cfg)))
          else if fg g < 256 then map_option css (ansiAt (ansi (colors cfg)) (fg g))
          else Some (css (foreground (colors cfg))))
         = Some (css (spec_effectiveForeground E (colors cfg) (fg g)))"
  using assms
  by (auto simp: renderable_def colorResolves_def ansiAt_def spec_effectiveBackground_def
      spec_effectiveForeground_def)

text \<open>
  C5: for every glyph whose colour ids resolve to a colour, \<open>drawToCache\<close> returns and
  makes on the scratch context exactly the calls of the pipeline, in order: the cell is
  filled with the effective background (sentinel: theme foreground; id below 256: palette
  entry; otherwise theme background); the font is set, and set to its bold variant if
  \<open>bold\<close> is set; the baseline is \<open>top\<close>; the fill style is the effective foreground (sentinel:
  theme background; id below 256: palette entry; otherwise theme foreground);
  \<open>DIM_OPACITY\<close> is applied if \<open>dim\<close> is set; the character is drawn at the origin. The pixels
  read back are stripped of the background colour (a matching pixel gets alpha 0, any
  other pixel is unchanged) and replace, without blending, the pixels of the cell at the
  slot's coordinates; no other pixel of the atlas changes, and nothing else of the state.
\<close>

theorem rasterization_pipeline:
  assumes r: "renderable E (config s) g"
  shows "\<exists>s'. drawToCache E s g index = Inr s'
          \<and> tmpCtx s' = tmpCtx s @ spec_pipeline E (config s) g
                @ [GetImageData 0 0 (scaledCharWidth (config s)) (scaledCharHeight (config s))]
          \<and> canvas_data (cacheCanvas s') =
              spec_writeToAtlas (cacheCanvas s) (toCoordinates s index)
                (scaledCharWidth (config s)) (scaledCharHeight (config s))
                (spec_stripBackground (scratch_pixels E (tmpCtx s @ spec_pipeline E (config s) g))
                   (spec_effectiveBackground E (colors (config s)) (bg g)))
          \<and> canvas_width (cacheCanvas s') = canvas_width (cacheCanvas s)
          \<and> canvas_height (cacheCanvas s') = canvas_height (cacheCanvas s)
          \<and> s' = s\<lparr>tmpCtx := tmpCtx s', cacheCanvas := cacheCanvas s'\<rparr>"
proof -
  let ?cfg = "config s"
  let ?B = "spec_effectiveBackground E (colors ?cfg) (bg g)"
  let ?w = "scaledCharWidth ?cfg" and ?h = "scaledCharHeight ?cfg"
  let ?calls = "spec_pipeline E ?cfg g"
  let ?img = "clearColor \<lparr>img_width = ?w, img_height = ?h,
                           img_data = scratch_pixels E (tmpCtx s @ ?calls)\<rparr> ?B"
  let ?s' = "s\<lparr>tmpCtx := tmpCtx s @ ?calls @ [GetImageData 0 0 ?w ?h],
                cacheCanvas := putImageData (cacheCanvas s) ?img
                   (fst (toCoordinates s index)) (snd (toCoordinates s index))\<rparr>"
  have d: "drawToCache E s g index = Inr ?s'"
    unfolding drawToCache_def Let_def renderable_resolves [OF r]
    by (simp add: spec_pipeline_def)
  have px: "canvas_data (cacheCanvas ?s') =
              spec_writeToAtlas (cacheCanvas s) (toCoordinates s index) ?w ?h
                (spec_stripBackground (scratch_pixels E (tmpCtx s @ ?calls)) ?B)"
    by (auto simp: fun_eq_iff putImageData_def clearColor_def spec_writeToAtlas_def
        spec_stripBackground_def)
  have dims: "canvas_width (cacheCanvas ?s') = canvas_width (cacheCanvas s)"
    "canvas_height (cacheCanvas ?s') = canvas_height (cacheCanvas s)"
    by (simp_all add: putImageData_def)
  have tc: "tmpCtx ?s' = tmpCtx s @ ?calls @ [GetImageData 0 0 ?w ?h]" by simp
  have fr: "?s' = s\<lparr>tmpCtx := tmpCtx ?s', cacheCanvas := cacheCanvas ?s'\<rparr>" by simp
  show ?thesis
    by (rule exI [of _ ?s']) (intro conjI d tc px dims fr)
qed

theorem rasterization_pipeline_witness:
  "renderable exampleEnv (config (constructor_with 2 1 (exampleConfig 1 1))) styledGlyph
   \<and> (\<exists>s'. drawToCache exampleEnv (constructor_with 2 1 (exampleConfig 1 1)) styledGlyph 1 = Inr s'
        \<and> tmpCtx s' =
            [Save, FillStyle ''#000000'', FillRect 0 0 1 1,
             Font (Px 12 2 ''monospace''), Font (Bold (Px 12 2 ''monospace'')),
             TextBaseline ''top'', FillStyle ''#808080'', GlobalAlpha (1 / 2),
             FillText [0x41] 0 0, Restore, GetImageData 0 0 1 1]
        \<and> canvas_data (cacheCanvas s') (1, 0) = \<lparr>red = 0, green = 0, blue = 0, alpha = 0\<rparr>
        \<and> canvas_data (cacheCanvas s') (0, 0) = transparent)"
proof -
  let ?s = "constructor_with 2 1 (exampleConfig 1 1)"
  have r: "renderable exampleEnv (config ?s) styledGlyph"
    by (simp add: renderable_def colorResolves_def styledGlyph_def exampleEnv_def
        constructor_with_def exampleConfig_def exampleColors_def)
  from rasterization_pipeline [OF r, of 1] obtain s'
    where d: "drawToCache exampleEnv ?s styledGlyph 1 = Inr s'"
      and tc: "tmpCtx s' = tmpCtx ?s @ spec_pipeline exampleEnv (config ?s) styledGlyph
                @ [GetImageData 0 0 (scaledCharWidth (config ?s)) (scaledCharHeight (config ?s))]"
      and px: "canvas_data (cacheCanvas s') =
              spec_writeToAtlas (cacheCanvas ?s) (toCoordinates ?s 1)
                (scaledCharWidth (config ?s)) (scaledCharHeight (config ?s))
                (spec_stripBackground
                   (scratch_pixels exampleEnv (tmpCtx ?s @ spec_pipeline exampleEnv (config ?s) styledGlyph))
                   (spec_effectiveBackground exampleEnv (colors (config ?s)) (bg styledGlyph)))"
    by blast
  have B: "spec_effectiveBackground exampleEnv (colors (config ?s)) (bg styledGlyph)
             = \<lparr>css = ''#000000'', rgba = 0x000000FF\<rparr>"
    by (simp add: spec_effectiveBackground_def styledGlyph_def exampleEnv_def
        constructor_with_def exampleConfig_def exampleColors_def)
  have F: "spec_effectiveForeground exampleEnv (colors (config ?s)) (fg styledGlyph)
             = \<lparr>css = ''#808080'', rgba = 0x808080FF\<rparr>"
    by (simp add: spec_effectiveForeground_def styledGlyph_def exampleEnv_def
        constructor_with_def exampleConfig_def exampleColors_def)
  have cfg: "config ?s = exampleConfig 1 1" and t0: "tmpCtx ?s = []"
    by (simp_all add: constructor_with_def)
  have calls: "tmpCtx s' =
            [Save, FillStyle ''#000000'', FillRect 0 0 1 1,
             Font (Px 12 2 ''monospace''), Font (Bold (Px 12 2 ''monospace'')),
             TextBaseline ''top'', FillStyle ''#808080'', GlobalAlpha (1 / 2),
             FillText [0x41] 0 0, Restore, GetImageData 0 0 1 1]"
    unfolding tc spec_pipeline_def B F
    by (simp add: constructor_with_def exampleConfig_def styledGlyph_def exampleEnv_def)
  have xy: "toCoordinates ?s 1 = (1, 0)"
    by (simp add: toCoordinates_def constructor_with_def exampleConfig_def)
  have m: "colorMatches \<lparr>red = 0, green = 0, blue = 0, alpha = 255\<rparr> \<lparr>css = ''#000000'', rgba = 0x000000FF\<rparr>"
    by (simp add: colorMatches_def)
  have p1: "canvas_data (cacheCanvas s') (1, 0) = \<lparr>red = 0, green = 0, blue = 0, alpha = 0\<rparr>"
    unfolding px B xy
    by (simp add: spec_writeToAtlas_def spec_stripBackground_def m exampleEnv_def
        exampleConfig_def constructor_with_def)
  have p0: "canvas_data (cacheCanvas s') (0, 0) = transparent"
    unfolding px B xy
    by (simp add: spec_writeToAtlas_def constructor_with_def)
  from r d calls p1 p0 show ?thesis by blast
qed

end
